theory Spec2Isabelle
  imports Main
begin

section \<open>Python values read from JSON\<close>

text \<open>
  The identifiers the program compares come out of decoded JSON (the platform's responses,
  the catalogue file) or out of a slash-command argument. They are modelled as the JSON
  scalars with integer numbers; floats and nested containers in identifier position are
  outside the model. Strings are ASCII text.
\<close>

datatype pyval = PNone | PBool bool | PInt int | PStr string

text \<open>Python's truth value, as tested by \<^verbatim>\<open>if not user_id\<close>.\<close>

fun truthy :: "pyval \<Rightarrow> bool" where
  "truthy PNone = False"
| "truthy (PBool b) = b"
| "truthy (PInt i) = (i \<noteq> 0)"
| "truthy (PStr s) = (s \<noteq> [])"

definition digit_char :: "nat \<Rightarrow> char" where
  "digit_char d = ''0123456789'' ! d"

fun str_nat :: "nat \<Rightarrow> string" where
  "str_nat n = (if n < 10 then [digit_char n] else str_nat (n div 10) @ [digit_char (n mod 10)])"

declare str_nat.simps [simp del]

definition str_int :: "int \<Rightarrow> string" where
  "str_int i = (if i < 0 then CHR ''-'' # str_nat (nat (- i)) else str_nat (nat i))"

text \<open>Python's \<^verbatim>\<open>str(v)\<close>, also what an f-string does to \<^verbatim>\<open>{v}\<close>.\<close>

fun py_str :: "pyval \<Rightarrow> string" where
  "py_str PNone = ''None''"
| "py_str (PBool b) = (if b then ''True'' else ''False'')"
| "py_str (PInt i) = str_int i"
| "py_str (PStr s) = s"

text \<open>A decoded JSON object; \<^verbatim>\<open>d.get(k)\<close> is \<open>None\<close> for a missing key.\<close>

type_synonym json_obj = "string \<Rightarrow> pyval option"

definition dict_get :: "json_obj \<Rightarrow> string \<Rightarrow> pyval" where
  "dict_get d k = (case d k of None \<Rightarrow> PNone | Some v \<Rightarrow> v)"

text \<open>
  \<^verbatim>\<open>str.strip()\<close> on ASCII text: the whitespace characters are tab, line feed, vertical tab,
  form feed, carriage return, the four separators 28 to 31, and space.
\<close>

definition is_space :: "char \<Rightarrow> bool" where
  "is_space c = (let k = (of_char c :: nat) in (9 \<le> k \<and> k \<le> 13) \<or> (28 \<le> k \<and> k \<le> 32))"

definition strip :: "string \<Rightarrow> string" where
  "strip s = rev (dropWhile is_space (rev (dropWhile is_space s)))"

section \<open>The verification platform\<close>

text \<open>
  One HTTP exchange (\<^verbatim>\<open>requests.get\<close>/\<^verbatim>\<open>requests.post\<close>, \<^verbatim>\<open>raise_for_status()\<close>,
  \<^verbatim>\<open>response.json()\<close>) either raises a \<^verbatim>\<open>RequestException\<close> (connection error, timeout,
  non-2xx status, undecodable body) or yields the decoded body.
  The platform is an oracle: its answer to the request with a given URL that is
  the \<open>n\<close>-th HTTP request of the process.
\<close>

datatype 'a response = Request_exception | Body 'a

text \<open>
  The body of the identity lookup: a JSON object whose value under the key the program
  reads is a list of JSON objects.
\<close>

type_synonym json_body = "string \<Rightarrow> json_obj list option"

text \<open>
  The body of the entitlement listing is any decoded JSON value, in the shapes that the
  ownership check can tell apart. An element of an array is an object (by its scalar
  fields), a nested array, or a scalar. The value under a key is an array, an object
  (by its keys, which is what iterating over it yields) or a scalar. The body itself is
  an object, an array or a scalar. Outside identifier position a float behaves as an
  integer does.
\<close>

datatype element = Obj json_obj | Arr | Val pyval

datatype jvalue = VList "element list" | VObject "string list" | VVal pyval

datatype listing = BObject "string \<Rightarrow> jvalue option" | BArray "element list" | BVal pyval

record env =
  users_api :: "nat \<Rightarrow> string \<Rightarrow> json_body response"
  gamepass_api :: "nat \<Rightarrow> string \<Rightarrow> listing response"

datatype exn = TimeoutError | KeyError | TypeError | AttributeError | OtherException

datatype message =
    Menu_not_for_you
  | Not_for_you
  | Item_not_found
  | Purchase_prompt string string pyval
  | Already_in_progress
  | Verifying_please_wait
  | Ask_username
  | Username_not_found
  | Attempt_progress nat
  | Purchase_verified string
  | File_link string
  | Verification_failed string pyval
  | Timed_out_notice
  | Error_notice
  | Purchase_cancelled

datatype log_line =
    Log_user_id_error
  | Log_checking pyval
  | Log_owns pyval
  | Log_not_owned pyval
  | Log_no_key
  | Log_check_error
  | Log_username string
  | Log_converted pyval
  | Log_attempt nat
  | Log_verification_error exn

text \<open>
  What a handler does to the outside world, in order. A send is recorded when it is
  issued. \<open>Respond\<close> is \<^verbatim>\<open>interaction.response.send_message\<close> and \<open>Followup\<close> is
  \<^verbatim>\<open>interaction.followup.send\<close>, each with the identity whose interaction it answers;
  \<open>Edit_message\<close> is \<^verbatim>\<open>interaction.message.edit(view=self)\<close> with the disabled flags of
  the view's children; \<open>Wait_for\<close> is \<^verbatim>\<open>bot.wait_for('message', timeout=60.0)\<close> for a
  direct message of that identity; \<open>Sleep\<close> is \<^verbatim>\<open>asyncio.sleep\<close>.
\<close>

datatype effect =
    Respond nat message
  | Followup nat message
  | Edit_message "bool list"
  | Wait_for nat
  | Sleep nat
  | Http_post string string
  | Http_get string
  | Log log_line

definition users_url :: string where
  "users_url = ''https://users.roblox.com/v1/usernames/users''"

definition gamepasses_url :: "pyval \<Rightarrow> string" where
  "gamepasses_url user_id =
     ''https://apis.roblox.com/game-passes/v1/users/'' @ py_str user_id @ ''/game-passes?count=100''"

text \<open>
  \<^verbatim>\<open>get_user_id_from_username\<close>: the effects, and the returned value or the exception that
  escapes (\<^verbatim>\<open>data["data"][0]["id"]\<close> raises \<^verbatim>\<open>KeyError\<close> when the entry has no id).
\<close>

definition get_user_id_from_username :: "env \<Rightarrow> nat \<Rightarrow> string \<Rightarrow> effect list \<times> (exn + pyval)" where
  "get_user_id_from_username e n username =
     (case users_api e n username of
        Request_exception \<Rightarrow> ([Http_post users_url username, Log Log_user_id_error], Inr PNone)
      | Body data \<Rightarrow>
          (case data ''data'' of
             None \<Rightarrow> ([Http_post users_url username], Inr PNone)
           | Some [] \<Rightarrow> ([Http_post users_url username], Inr PNone)
           | Some (entry # _) \<Rightarrow>
               (case entry ''id'' of
                  None \<Rightarrow> ([Http_post users_url username], Inl KeyError)
                | Some v \<Rightarrow> ([Http_post users_url username], Inr v))))"

text \<open>Python's \<^verbatim>\<open>k in s\<close> for two strings.\<close>

fun is_substring :: "string \<Rightarrow> string \<Rightarrow> bool" where
  "is_substring k [] = (k = [])"
| "is_substring k (c # cs) = (take (length k) (c # cs) = k \<or> is_substring k cs)"

text \<open>
  \<^verbatim>\<open>k in data\<close>: a key test on an object, a membership test on an array, a substring
  test on a string, and a \<^verbatim>\<open>TypeError\<close> on null, a number or a boolean.
\<close>

definition key_in :: "string \<Rightarrow> listing \<Rightarrow> exn + bool" where
  "key_in k data =
     (case data of
        BObject d \<Rightarrow> Inr (d k \<noteq> None)
      | BArray xs \<Rightarrow> Inr (Val (PStr k) \<in> set xs)
      | BVal (PStr s) \<Rightarrow> Inr (is_substring k s)
      | BVal _ \<Rightarrow> Inl TypeError)"

text \<open>\<^verbatim>\<open>data[k]\<close> for a string \<open>k\<close>: only an object can be subscripted with a string.\<close>

definition subscript :: "listing \<Rightarrow> string \<Rightarrow> exn + jvalue" where
  "subscript data k =
     (case data of
        BObject d \<Rightarrow> (case d k of None \<Rightarrow> Inl KeyError | Some x \<Rightarrow> Inr x)
      | _ \<Rightarrow> Inl TypeError)"

text \<open>
  What \<^verbatim>\<open>for gamepass in x\<close> iterates over: the elements of an array, the keys of an
  object, the characters of a string; null, a number and a boolean are not iterable.
\<close>

definition iterate :: "jvalue \<Rightarrow> exn + element list" where
  "iterate x =
     (case x of
        VList xs \<Rightarrow> Inr xs
      | VObject ks \<Rightarrow> Inr (map (\<lambda>k. Val (PStr k)) ks)
      | VVal (PStr s) \<Rightarrow> Inr (map (\<lambda>c. Val (PStr [c])) s)
      | VVal _ \<Rightarrow> Inl TypeError)"

text \<open>
  The \<^verbatim>\<open>for gamepass in data["gamePasses"]\<close> loop of \<^verbatim>\<open>check_gamepass_ownership\<close>;
  \<^verbatim>\<open>gamepass.get\<close> raises \<^verbatim>\<open>AttributeError\<close> on anything but an object.
\<close>

fun scan_gamepasses :: "element list \<Rightarrow> pyval \<Rightarrow> exn + bool" where
  "scan_gamepasses [] gamepass_id = Inr False"
| "scan_gamepasses (Obj gamepass # rest) gamepass_id =
     (if py_str (dict_get gamepass ''gamePassId'') = py_str gamepass_id then Inr True
      else scan_gamepasses rest gamepass_id)"
| "scan_gamepasses (_ # rest) gamepass_id = Inl AttributeError"

text \<open>
  Lines 85 to 94, after the request has succeeded: the returned value, or the exception
  that is raised. None of these exceptions is a \<^verbatim>\<open>RequestException\<close>.
\<close>

definition find_gamepass :: "listing \<Rightarrow> pyval \<Rightarrow> exn + bool option" where
  "find_gamepass data gamepass_id =
     (case key_in ''gamePasses'' data of
        Inl ex \<Rightarrow> Inl ex
      | Inr False \<Rightarrow> Inr None
      | Inr True \<Rightarrow>
          (case subscript data ''gamePasses'' of
             Inl ex \<Rightarrow> Inl ex
           | Inr x \<Rightarrow>
               (case iterate x of
                  Inl ex \<Rightarrow> Inl ex
                | Inr gamepasses \<Rightarrow>
                    (case scan_gamepasses gamepasses gamepass_id of
                       Inl ex \<Rightarrow> Inl ex
                     | Inr owned \<Rightarrow> Inr (Some owned)))))"

text \<open>
  \<^verbatim>\<open>check_gamepass_ownership\<close>: the effects, and the returned value or the exception that
  escapes the function, which catches \<^verbatim>\<open>RequestException\<close> only.
\<close>

definition check_gamepass_ownership ::
  "env \<Rightarrow> nat \<Rightarrow> pyval \<Rightarrow> pyval \<Rightarrow> effect list \<times> (exn + bool)" where
  "check_gamepass_ownership e n user_id gamepass_id =
     (case gamepass_api e n (gamepasses_url user_id) of
        Request_exception \<Rightarrow>
          ([Http_get (gamepasses_url user_id), Log Log_check_error], Inr False)
      | Body data \<Rightarrow>
          (case find_gamepass data gamepass_id of
             Inl ex \<Rightarrow>
               ([Http_get (gamepasses_url user_id), Log (Log_checking user_id)], Inl ex)
           | Inr (Some True) \<Rightarrow>
               ([Http_get (gamepasses_url user_id), Log (Log_checking user_id),
                 Log (Log_owns gamepass_id)], Inr True)
           | Inr (Some False) \<Rightarrow>
               ([Http_get (gamepasses_url user_id), Log (Log_checking user_id),
                 Log (Log_not_owned gamepass_id)], Inr False)
           | Inr None \<Rightarrow>
               ([Http_get (gamepasses_url user_id), Log (Log_checking user_id), Log Log_no_key],
                Inr False)))"

section \<open>The catalogue and the item selection menu\<close>

record item =
  name :: string
  file_url :: string
  gamepass_id :: pyval

text \<open>
  The fields of a \<^verbatim>\<open>PurchaseConfirmView\<close>. \<open>children\<close> holds the \<^verbatim>\<open>disabled\<close> flag of
  each child, in order: the "I Bought It" button and the "Nevermind" button.
\<close>

record confirm_view =
  item :: item
  user :: nat
  gamepass_url :: string
  is_processing :: bool
  children :: "bool list"

definition PurchaseConfirmView :: "item \<Rightarrow> nat \<Rightarrow> string \<Rightarrow> confirm_view" where
  "PurchaseConfirmView i u url =
     \<lparr>item = i, user = u, gamepass_url = url, is_processing = False, children = [False, False]\<rparr>"

text \<open>
  \<^verbatim>\<open>ItemSelectView.select_callback\<close>, for the menu of the identity \<open>owner\<close>, triggered by
  \<open>uid\<close> with the chosen value; \<open>items\<close> is what \<^verbatim>\<open>load_data()["items"]\<close> holds then.
  It returns the view it created, when it created one.
\<close>

definition select_callback ::
  "item list \<Rightarrow> nat \<Rightarrow> nat \<Rightarrow> string \<Rightarrow> effect list \<times> confirm_view option" where
  "select_callback items owner uid selected_item_name =
     (if uid \<noteq> owner then ([Respond uid Menu_not_for_you], None)
      else (case find (\<lambda>i. name i = selected_item_name) items of
              None \<Rightarrow> ([Respond uid Item_not_found], None)
            | Some i \<Rightarrow>
                (let url = ''https://www.roblox.com/game-pass/'' @ py_str (gamepass_id i)
                 in ([Respond uid (Purchase_prompt (name i) url (gamepass_id i))],
                     Some (PurchaseConfirmView i owner url)))))"

section \<open>The handlers of the confirmation view as coroutines\<close>

text \<open>
  A handler runs without interruption from one \<^verbatim>\<open>await\<close> to the next. A suspended handler
  is a task: the \<^verbatim>\<open>await\<close> it waits at and its local variables. The blocking
  \<^verbatim>\<open>requests\<close> calls are not suspension points.
\<close>

datatype pc =
    Notice
  | Ack
  | Prompt
  | Wait_username
  | Not_found_notice
  | Progress_notice
  | Sleeping
  | Verified_notice
  | File_send
  | Delivery_edit
  | Failed_notice
  | Timeout_handler
  | Error_handler
  | Cancel_notice
  | Cancel_edit

record task =
  pc :: pc
  caller :: nat
  roblox_username :: string
  user_id :: pyval
  attempt :: nat

definition new_task :: "pc \<Rightarrow> nat \<Rightarrow> task" where
  "new_task p uid = \<lparr>pc = p, caller = uid, roblox_username = [], user_id = PNone, attempt = 0\<rparr>"

text \<open>
  How an awaited call ends: it returns (for \<^verbatim>\<open>bot.wait_for\<close> with the content of the
  message that passed the check; the other awaits' values are not used) or it raises.
\<close>

datatype reply = Returned string | Raised exn

text \<open>How a handler invocation ends: the exit path it took, or the exception that escaped it.\<close>

datatype outcome =
    Rejected
  | Delivered
  | Failed_unresolved
  | Failed_exhausted
  | Timed_out
  | Errored
  | Cancelled
  | Escaped exn

datatype progress = Suspended task | Finished outcome

text \<open>The synchronous start of \<^verbatim>\<open>bought_button\<close>, up to its first \<^verbatim>\<open>await\<close>.\<close>

definition bought_button :: "confirm_view \<Rightarrow> nat \<Rightarrow> confirm_view \<times> effect list \<times> task" where
  "bought_button v uid =
     (if uid \<noteq> user v then (v, [Respond uid Not_for_you], new_task Notice uid)
      else if is_processing v then (v, [Respond uid Already_in_progress], new_task Notice uid)
      else (v\<lparr>is_processing := True\<rparr>, [Respond uid Verifying_please_wait], new_task Ack uid))"

text \<open>The synchronous start of \<^verbatim>\<open>cancel_button\<close>.\<close>

definition cancel_button :: "confirm_view \<Rightarrow> nat \<Rightarrow> confirm_view \<times> effect list \<times> task" where
  "cancel_button v uid =
     (if uid \<noteq> user v then (v, [Respond uid Not_for_you], new_task Notice uid)
      else (v, [Respond uid Purchase_cancelled], new_task Cancel_notice uid))"

text \<open>An exception raised inside the \<^verbatim>\<open>try\<close> block: the matching \<^verbatim>\<open>except\<close> clause starts.\<close>

definition except_clause :: "task \<Rightarrow> exn \<Rightarrow> effect list \<times> progress" where
  "except_clause t e =
     (case e of
        TimeoutError \<Rightarrow>
          ([Followup (caller t) Timed_out_notice], Suspended (t\<lparr>pc := Timeout_handler\<rparr>))
      | _ \<Rightarrow>
          ([Log (Log_verification_error e), Followup (caller t) Error_notice],
           Suspended (t\<lparr>pc := Error_handler\<rparr>)))"

text \<open>\<^verbatim>\<open>if verified: ... else: ...\<close> after the loop, up to the next \<^verbatim>\<open>await\<close>.\<close>

definition after_loop :: "confirm_view \<Rightarrow> task \<Rightarrow> bool \<Rightarrow> effect list \<times> progress" where
  "after_loop v t verified =
     (if verified
      then ([Followup (caller t) (Purchase_verified (name (item v)))],
            Suspended (t\<lparr>pc := Verified_notice\<rparr>))
      else ([Followup (caller t)
               (Verification_failed (roblox_username t) (gamepass_id (item v)))],
            Suspended (t\<lparr>pc := Failed_notice\<rparr>)))"

text \<open>
  The body of \<^verbatim>\<open>for attempt in range(5)\<close> entered with \<open>attempt = k\<close>, up to the next
  \<^verbatim>\<open>await\<close>. After a failed attempt 4 nothing is sent and the range is exhausted. An
  exception that escapes the check is raised inside the \<^verbatim>\<open>try\<close> block.
\<close>

definition loop_iteration ::
  "env \<Rightarrow> nat \<Rightarrow> confirm_view \<Rightarrow> task \<Rightarrow> nat \<Rightarrow> effect list \<times> progress" where
  "loop_iteration e n v t k =
     (if k < 5 then
        (let (es, r) = check_gamepass_ownership e n (user_id t) (gamepass_id (item v)) in
         case r of
           Inl ex \<Rightarrow>
             (let (es', p) = except_clause t ex in (Log (Log_attempt (k + 1)) # es @ es', p))
         | Inr owned \<Rightarrow>
             if owned then
               (let (es', p) = after_loop v t True in (Log (Log_attempt (k + 1)) # es @ es', p))
             else if k < 4 then
               (Log (Log_attempt (k + 1)) # es
                  @ [Followup (caller t) (Attempt_progress (k + 1))],
                Suspended (t\<lparr>pc := Progress_notice, attempt := k\<rparr>))
             else
               (let (es', p) = after_loop v t False in (Log (Log_attempt (k + 1)) # es @ es', p)))
      else after_loop v t False)"

text \<open>Lines 178 to 203: the message has arrived.\<close>

definition on_message ::
  "env \<Rightarrow> nat \<Rightarrow> confirm_view \<Rightarrow> task \<Rightarrow> string \<Rightarrow> effect list \<times> progress" where
  "on_message e n v t content =
     (let t1 = t\<lparr>roblox_username := strip content\<rparr>;
          (es, r) = get_user_id_from_username e n (roblox_username t1)
      in case r of
           Inl ex \<Rightarrow>
             (let (es', p) = except_clause t1 ex
              in (Log (Log_username (roblox_username t1)) # es @ es', p))
         | Inr uidv \<Rightarrow>
             (let t2 = t1\<lparr>user_id := uidv\<rparr> in
              if \<not> truthy uidv then
                (Log (Log_username (roblox_username t1)) # es
                   @ [Followup (caller t) Username_not_found],
                 Suspended (t2\<lparr>pc := Not_found_notice\<rparr>))
              else
                (let (es', p) = loop_iteration e (Suc n) v t2 0
                 in (Log (Log_username (roblox_username t1)) # es
                       @ Log (Log_converted uidv) # es', p))))"

text \<open>
  A suspended task is resumed with the reply of the call it awaits; \<open>n\<close> is the number of
  HTTP requests issued so far. The result is the view as the handler left it, the
  effects up to the next \<^verbatim>\<open>await\<close> or the end, and what became of the task. Leaving the
  \<^verbatim>\<open>try\<close> statement runs \<^verbatim>\<open>finally: self.is_processing = False\<close>.
\<close>

definition resume ::
  "env \<Rightarrow> nat \<Rightarrow> confirm_view \<Rightarrow> task \<Rightarrow> reply \<Rightarrow> confirm_view \<times> effect list \<times> progress" where
  "resume e n v t r =
     (case pc t of
        Notice \<Rightarrow>
          (case r of Returned _ \<Rightarrow> (v, [], Finished Rejected)
                   | Raised ex \<Rightarrow> (v, [], Finished (Escaped ex)))
      | Ack \<Rightarrow>
          (case r of Returned _ \<Rightarrow> (v, [Followup (caller t) Ask_username], Suspended (t\<lparr>pc := Prompt\<rparr>))
                   | Raised ex \<Rightarrow> (v, [], Finished (Escaped ex)))
      | Prompt \<Rightarrow>
          (case r of Returned _ \<Rightarrow> (v, [Wait_for (caller t)], Suspended (t\<lparr>pc := Wait_username\<rparr>))
                   | Raised ex \<Rightarrow> (v, [], Finished (Escaped ex)))
      | Wait_username \<Rightarrow>
          (case r of Returned content \<Rightarrow> (let (es, p) = on_message e n v t content in (v, es, p))
                   | Raised ex \<Rightarrow> (let (es, p) = except_clause t ex in (v, es, p)))
      | Not_found_notice \<Rightarrow>
          (case r of Returned _ \<Rightarrow> (v\<lparr>is_processing := False\<rparr>, [], Finished Failed_unresolved)
                   | Raised ex \<Rightarrow> (let (es, p) = except_clause t ex in (v, es, p)))
      | Progress_notice \<Rightarrow>
          (case r of Returned _ \<Rightarrow> (v, [Sleep 5], Suspended (t\<lparr>pc := Sleeping\<rparr>))
                   | Raised ex \<Rightarrow> (let (es, p) = except_clause t ex in (v, es, p)))
      | Sleeping \<Rightarrow>
          (case r of Returned _ \<Rightarrow> (let (es, p) = loop_iteration e n v t (attempt t + 1) in (v, es, p))
                   | Raised ex \<Rightarrow> (let (es, p) = except_clause t ex in (v, es, p)))
      | Verified_notice \<Rightarrow>
          (case r of Returned _ \<Rightarrow>
                       (v, [Followup (caller t) (File_link (file_url (item v)))],
                        Suspended (t\<lparr>pc := File_send\<rparr>))
                   | Raised ex \<Rightarrow> (let (es, p) = except_clause t ex in (v, es, p)))
      | File_send \<Rightarrow>
          (case r of Returned _ \<Rightarrow>
                       (v\<lparr>children := map (\<lambda>_. True) (children v)\<rparr>,
                        [Edit_message (map (\<lambda>_. True) (children v))],
                        Suspended (t\<lparr>pc := Delivery_edit\<rparr>))
                   | Raised ex \<Rightarrow> (let (es, p) = except_clause t ex in (v, es, p)))
      | Delivery_edit \<Rightarrow>
          (case r of Returned _ \<Rightarrow> (v\<lparr>is_processing := False\<rparr>, [], Finished Delivered)
                   | Raised ex \<Rightarrow> (let (es, p) = except_clause t ex in (v, es, p)))
      | Failed_notice \<Rightarrow>
          (case r of Returned _ \<Rightarrow> (v\<lparr>is_processing := False\<rparr>, [], Finished Failed_exhausted)
                   | Raised ex \<Rightarrow> (let (es, p) = except_clause t ex in (v, es, p)))
      | Timeout_handler \<Rightarrow>
          (case r of Returned _ \<Rightarrow> (v\<lparr>is_processing := False\<rparr>, [], Finished Timed_out)
                   | Raised ex \<Rightarrow> (v\<lparr>is_processing := False\<rparr>, [], Finished (Escaped ex)))
      | Error_handler \<Rightarrow>
          (case r of Returned _ \<Rightarrow> (v\<lparr>is_processing := False\<rparr>, [], Finished Errored)
                   | Raised ex \<Rightarrow> (v\<lparr>is_processing := False\<rparr>, [], Finished (Escaped ex)))
      | Cancel_notice \<Rightarrow>
          (case r of Returned _ \<Rightarrow>
                       (v\<lparr>children := map (\<lambda>_. True) (children v)\<rparr>,
                        [Edit_message (map (\<lambda>_. True) (children v))],
                        Suspended (t\<lparr>pc := Cancel_edit\<rparr>))
                   | Raised ex \<Rightarrow> (v, [], Finished (Escaped ex)))
      | Cancel_edit \<Rightarrow>
          (case r of Returned _ \<Rightarrow> (v, [], Finished Cancelled)
                   | Raised ex \<Rightarrow> (v, [], Finished (Escaped ex))))"

section \<open>Running the handlers\<close>

definition is_http :: "effect \<Rightarrow> bool" where
  "is_http x = (case x of Http_post _ _ \<Rightarrow> True | Http_get _ \<Rightarrow> True | _ \<Rightarrow> False)"

definition is_get :: "effect \<Rightarrow> bool" where
  "is_get x = (case x of Http_get _ \<Rightarrow> True | _ \<Rightarrow> False)"

definition http_calls :: "effect list \<Rightarrow> nat" where
  "http_calls es = length (filter is_http es)"

definition checks :: "effect list \<Rightarrow> nat" where
  "checks es = length (filter is_get es)"

text \<open>
  One handler invocation on its own: the task is resumed with the replies in turn until
  it ends or the replies run out. The effects are those of the whole stretch.
\<close>

fun run ::
  "env \<Rightarrow> nat \<Rightarrow> confirm_view \<Rightarrow> task \<Rightarrow> reply list \<Rightarrow> confirm_view \<times> effect list \<times> progress" where
  "run e n v t [] = (v, [], Suspended t)"
| "run e n v t (r # rs) =
     (case resume e n v t r of
        (v', es, Finished out) \<Rightarrow> (v', es, Finished out)
      | (v', es, Suspended t') \<Rightarrow>
          (case run e (n + http_calls es) v' t' rs of (v'', es', p) \<Rightarrow> (v'', es @ es', p)))"

text \<open>
  The event loop around one confirmation view: the suspended tasks, everything done so
  far and how the finished invocations ended. An event is a button press by some
  identity or the completion of the call that the \<open>i\<close>-th suspended task awaits.
\<close>

record session =
  cview :: confirm_view
  tasks :: "task list"
  trace :: "effect list"
  outcomes :: "outcome list"

datatype event = Press_bought nat | Press_cancel nat | Resume nat reply

definition new_session :: "confirm_view \<Rightarrow> session" where
  "new_session v = \<lparr>cview = v, tasks = [], trace = [], outcomes = []\<rparr>"

definition step :: "env \<Rightarrow> session \<Rightarrow> event \<Rightarrow> session" where
  "step e s ev =
     (case ev of
        Press_bought uid \<Rightarrow>
          (case bought_button (cview s) uid of
             (v, es, t) \<Rightarrow> s\<lparr>cview := v, tasks := tasks s @ [t], trace := trace s @ es\<rparr>)
      | Press_cancel uid \<Rightarrow>
          (case cancel_button (cview s) uid of
             (v, es, t) \<Rightarrow> s\<lparr>cview := v, tasks := tasks s @ [t], trace := trace s @ es\<rparr>)
      | Resume i r \<Rightarrow>
          (if i < length (tasks s) then
             (case resume e (http_calls (trace s)) (cview s) (tasks s ! i) r of
                (v, es, Suspended t) \<Rightarrow>
                  s\<lparr>cview := v, tasks := (tasks s)[i := t], trace := trace s @ es\<rparr>
              | (v, es, Finished out) \<Rightarrow>
                  s\<lparr>cview := v, tasks := take i (tasks s) @ drop (Suc i) (tasks s),
                    trace := trace s @ es, outcomes := outcomes s @ [out]\<rparr>)
           else s))"

definition exec :: "env \<Rightarrow> session \<Rightarrow> event list \<Rightarrow> session" where
  "exec e s evs = foldl (step e) s evs"

section \<open>Measures and trace predicates used in the proofs\<close>

text \<open>The number of ownership checks a suspended task can still make.\<close>

definition budget :: "task \<Rightarrow> nat" where
  "budget t =
     (case pc t of
        Ack \<Rightarrow> 5 | Prompt \<Rightarrow> 5 | Wait_username \<Rightarrow> 5
      | Progress_notice \<Rightarrow> 4 - attempt t | Sleeping \<Rightarrow> 4 - attempt t
      | _ \<Rightarrow> 0)"

definition budget_left :: "progress \<Rightarrow> nat" where
  "budget_left p = (case p of Suspended t \<Rightarrow> budget t | Finished _ \<Rightarrow> 0)"

text \<open>
  \<^verbatim>\<open>check_gamepass_ownership\<close> logs "User owns gamepass" exactly before it returns
  \<^verbatim>\<open>True\<close>. A trace is quiet after an owned result when no listing request follows such
  a line.
\<close>

definition is_owned_log :: "effect \<Rightarrow> bool" where
  "is_owned_log x = (case x of Log (Log_owns _) \<Rightarrow> True | _ \<Rightarrow> False)"

fun quiet_after_owned :: "effect list \<Rightarrow> bool" where
  "quiet_after_owned [] = True"
| "quiet_after_owned (x # xs) = ((is_owned_log x \<longrightarrow> checks xs = 0) \<and> quiet_after_owned xs)"

definition loop_step_ok :: "nat \<Rightarrow> effect list \<Rightarrow> progress \<Rightarrow> bool" where
  "loop_step_ok b es p =
     (checks es + budget_left p \<le> b \<and> quiet_after_owned es
      \<and> ((\<exists>x\<in>set es. is_owned_log x) \<longrightarrow> budget_left p = 0))"

text \<open>An upper bound on the number of resumptions a suspended task still needs.\<close>

definition rank :: "task \<Rightarrow> nat" where
  "rank t =
     (case pc t of
        Notice \<Rightarrow> 1 | Ack \<Rightarrow> 15 | Prompt \<Rightarrow> 14 | Wait_username \<Rightarrow> 13
      | Not_found_notice \<Rightarrow> 2
      | Progress_notice \<Rightarrow> 2 * (3 - attempt t) + 6
      | Sleeping \<Rightarrow> 2 * (3 - attempt t) + 5
      | Verified_notice \<Rightarrow> 4 | File_send \<Rightarrow> 3 | Delivery_edit \<Rightarrow> 2
      | Failed_notice \<Rightarrow> 2 | Timeout_handler \<Rightarrow> 1 | Error_handler \<Rightarrow> 1
      | Cancel_notice \<Rightarrow> 2 | Cancel_edit \<Rightarrow> 1)"

text \<open>The tasks that continue an accepted "I Bought It" press.\<close>

definition is_run :: "task \<Rightarrow> bool" where
  "is_run t = (pc t \<noteq> Notice \<and> pc t \<noteq> Cancel_notice \<and> pc t \<noteq> Cancel_edit)"

definition runs :: "session \<Rightarrow> nat" where
  "runs s = length (filter is_run (tasks s))"

definition is_file_send :: "effect \<Rightarrow> bool" where
  "is_file_send x = (case x of Followup _ (File_link _) \<Rightarrow> True | _ \<Rightarrow> False)"

text \<open>Where a task stands with respect to the sending of the file link.\<close>

definition before_delivery :: "task \<Rightarrow> bool" where
  "before_delivery t =
     (pc t = Ack \<or> pc t = Prompt \<or> pc t = Wait_username \<or> pc t = Progress_notice
      \<or> pc t = Sleeping \<or> pc t = Verified_notice)"

definition file_sent :: "task \<Rightarrow> bool" where
  "file_sent t = (pc t = File_send \<or> pc t = Delivery_edit)"

definition reached_delivery :: "progress \<Rightarrow> bool" where
  "reached_delivery p = (case p of Suspended t \<Rightarrow> file_sent t | Finished out \<Rightarrow> out = Delivered)"

definition the_file_send :: "confirm_view \<Rightarrow> task \<Rightarrow> effect" where
  "the_file_send v t = Followup (caller t) (File_link (file_url (item v)))"

definition deliveries :: "effect list \<Rightarrow> effect list" where
  "deliveries es = filter is_file_send es"

text \<open>What the pieces between two awaits leave behind: no file, and a task of the same caller.\<close>

definition no_delivery_step :: "task \<Rightarrow> effect list \<times> progress \<Rightarrow> bool" where
  "no_delivery_step t x =
     (deliveries (fst x) = []
      \<and> (\<exists>t'. snd x = Suspended t' \<and> caller t' = caller t \<and> \<not> file_sent t'
              \<and> (before_delivery t' \<longrightarrow> pc t' = Progress_notice \<or> pc t' = Verified_notice)))"

text \<open>
  Invariants of a session: at most one accepted run is in flight, and then the flag is
  set; a task that awaits the edit of the message has left every control disabled.
\<close>

definition single_flight :: "session \<Rightarrow> bool" where
  "single_flight s = (runs s \<le> 1 \<and> (runs s = 1 \<longrightarrow> is_processing (cview s)))"

definition is_edit :: "effect \<Rightarrow> bool" where
  "is_edit x = (case x of Edit_message _ \<Rightarrow> True | _ \<Rightarrow> False)"

definition is_disabling_edit :: "effect \<Rightarrow> bool" where
  "is_disabling_edit x = (case x of Edit_message c \<Rightarrow> list_all (\<lambda>d. d) c | _ \<Rightarrow> False)"

definition controls_inv :: "session \<Rightarrow> bool" where
  "controls_inv s =
     (list_ex (\<lambda>t. pc t = Delivery_edit \<or> pc t = Cancel_edit) (tasks s) \<longrightarrow>
        list_all (\<lambda>d. d) (children (cview s)) \<and> list_ex is_disabling_edit (trace s))"

text \<open>
  The controls of a session that began with the view \<open>v\<close> are as \<open>v\<close> had them until a
  message edit is issued, and all disabled from then on.
\<close>

definition edit_inv :: "confirm_view \<Rightarrow> session \<Rightarrow> bool" where
  "edit_inv v s =
     (children (cview s) =
        (if list_ex is_edit (trace s) then map (\<lambda>_. True) (children v) else children v))"

section \<open>Example data\<close>

text \<open>
  The scenario of the specification: the item "Skin A" with entitlement id "999", the
  buyer 7, the account name Bob resolving to the account id 123, and a platform on which
  the entitlement becomes visible at the fourth HTTP request (the third ownership check).
\<close>

definition skin_a :: item where
  "skin_a = \<lparr>name = ''Skin A'', file_url = ''https://files/skinA'', gamepass_id = PStr ''999''\<rparr>"

definition bob_env :: env where
  "bob_env =
     \<lparr>users_api = (\<lambda>n u. Body [''data'' \<mapsto> [[''id'' \<mapsto> PInt 123]]]),
      gamepass_api = (\<lambda>n u. Body (BObject [''gamePasses'' \<mapsto>
                        VList (if n = 3 then [Obj [''gamePassId'' \<mapsto> PInt 999]] else [])]))\<rparr>"

definition skin_view :: confirm_view where
  "skin_view = PurchaseConfirmView skin_a 7 ''https://www.roblox.com/game-pass/999''"

text \<open>A platform that knows no account of any name.\<close>

definition nobody_env :: env where
  "nobody_env =
     \<lparr>users_api = (\<lambda>n u. Body [''data'' \<mapsto> []]),
      gamepass_api = (\<lambda>n u. Request_exception)\<rparr>"



text \<open>
  A listing endpoint that answers a request for \<open>count\<close> entries with the first \<open>count\<close>
  entitlements of the account, and an account whose 101st entitlement is "999".
\<close>

definition first_page :: "nat \<Rightarrow> json_obj list \<Rightarrow> listing response" where
  "first_page count owned = Body (BObject [''gamePasses'' \<mapsto> VList (map Obj (take count owned))])"

definition big_owner :: "json_obj list" where
  "big_owner = replicate 100 [''gamePassId'' \<mapsto> PInt 1] @ [[''gamePassId'' \<mapsto> PInt 999]]"

definition paged_env :: env where
  "paged_env =
     \<lparr>users_api = (\<lambda>n u. Body [''data'' \<mapsto> [[''id'' \<mapsto> PInt 123]]]),
      gamepass_api = (\<lambda>n u. first_page 100 big_owner)\<rparr>"

text \<open>
  Two sessions of the scenario: one whose run is in the retry loop, after the first
  failed check, and one whose run has ended because the account name did not resolve.
\<close>

definition verifying_session :: session where
  "verifying_session =
     exec bob_env (new_session skin_view)
       [Press_bought 7, Resume 0 (Returned []), Resume 0 (Returned []),
        Resume 0 (Returned '' Bob '')]"

definition failed_session :: session where
  "failed_session =
     exec nobody_env (new_session skin_view)
       [Press_bought 7, Resume 0 (Returned []), Resume 0 (Returned []),
        Resume 0 (Returned ''Nobody''), Resume 0 (Returned [])]"

text \<open>
  Two more: one whose run awaits the edit that ends the delivery, and one whose run awaits
  the send of the not-found notice.
\<close>

definition delivering_session :: session where
  "delivering_session =
     exec bob_env (new_session skin_view)
       [Press_bought 7, Resume 0 (Returned []), Resume 0 (Returned []),
        Resume 0 (Returned '' Bob ''), Resume 0 (Returned []), Resume 0 (Returned []),
        Resume 0 (Returned []), Resume 0 (Returned []), Resume 0 (Returned []),
        Resume 0 (Returned [])]"

definition unresolved_session :: session where
  "unresolved_session =
     exec nobody_env (new_session skin_view)
       [Press_bought 7, Resume 0 (Returned []), Resume 0 (Returned []),
        Resume 0 (Returned ''Nobody'')]"

text \<open>
  From the session whose run is in the retry loop, the buyer presses "Nevermind". In
  the first continuation the cancellation completes and then the run goes on to its end;
  in the second the run ends first and the cancellation completes after it.
\<close>

definition cancelled_then_delivered :: session where
  "cancelled_then_delivered =
     exec bob_env verifying_session
       [Press_cancel 7, Resume 1 (Returned []), Resume 1 (Returned []),
        Resume 0 (Returned []), Resume 0 (Returned []), Resume 0 (Returned []),
        Resume 0 (Returned []), Resume 0 (Returned []), Resume 0 (Returned []),
        Resume 0 (Returned [])]"

definition delivered_then_cancelled :: session where
  "delivered_then_cancelled =
     exec bob_env verifying_session
       [Press_cancel 7,
        Resume 0 (Returned []), Resume 0 (Returned []), Resume 0 (Returned []),
        Resume 0 (Returned []), Resume 0 (Returned []), Resume 0 (Returned []),
        Resume 0 (Returned []),
        Resume 0 (Returned []), Resume 0 (Returned [])]"


section \<open>Basic facts\<close>


lemma scan_gamepasses_objects:
  "scan_gamepasses (map Obj gps) g =
     Inr (\<exists>gp\<in>set gps. py_str (dict_get gp ''gamePassId'') = py_str g)"
  by (induction gps) auto








lemma find_gamepass_object:
  "find_gamepass (BObject d) g =
     (case d ''gamePasses'' of
        None \<Rightarrow> Inr None
      | Some x \<Rightarrow>
          (case iterate x of
             Inl ex \<Rightarrow> Inl ex
           | Inr xs \<Rightarrow>
               (case scan_gamepasses xs g of Inl ex \<Rightarrow> Inl ex | Inr b \<Rightarrow> Inr (Some b))))"
  by (simp add: find_gamepass_def key_in_def subscript_def split: option.split)

lemma check_cases:
  "check_gamepass_ownership e n u g =
     ([Http_get (gamepasses_url u), Log Log_check_error], Inr False)
   \<or> (\<exists>ex. check_gamepass_ownership e n u g =
         ([Http_get (gamepasses_url u), Log (Log_checking u)], Inl ex))
   \<or> check_gamepass_ownership e n u g =
       ([Http_get (gamepasses_url u), Log (Log_checking u), Log (Log_owns g)], Inr True)
   \<or> check_gamepass_ownership e n u g =
       ([Http_get (gamepasses_url u), Log (Log_checking u), Log (Log_not_owned g)], Inr False)
   \<or> check_gamepass_ownership e n u g =
       ([Http_get (gamepasses_url u), Log (Log_checking u), Log Log_no_key], Inr False)"
  by (simp add: check_gamepass_ownership_def
           split: response.split sum.split option.split bool.split)

lemma check_result:
  "snd (check_gamepass_ownership e n u g) =
     (case gamepass_api e n (gamepasses_url u) of
        Request_exception \<Rightarrow> Inr False
      | Body data \<Rightarrow>
          (case find_gamepass data g of
             Inl ex \<Rightarrow> Inl ex | Inr None \<Rightarrow> Inr False | Inr (Some b) \<Rightarrow> Inr b))"
  by (simp add: check_gamepass_ownership_def
           split: response.split sum.split option.split bool.split)

lemma str_int_999: "str_int 999 = ''999''"
  by (simp add: str_int_def str_nat.simps digit_char_def)

lemma str_int_1: "str_int 1 = ''1''"
  by (simp add: str_int_def str_nat.simps digit_char_def)

section \<open>The ownership check\<close>



lemma bob_env_checks:
  "snd (check_gamepass_ownership bob_env n (PInt 123) (PStr ''999'')) = Inr (n = 3)"
  by (simp add: check_result find_gamepass_object iterate_def bob_env_def dict_get_def
                str_int_999)


text \<open>
  C10: one ownership check issues exactly one HTTP request, the listing request with
  \<^verbatim>\<open>count=100\<close>, and its result depends on the answer to that request only. So when the
  platform answers with the first 100 entitlements of the account and none of them
  matches, the result is \<^verbatim>\<open>False\<close>, whatever the account owns beyond them.
\<close>

theorem check_gamepass_ownership_single_page:
  "filter is_http (fst (check_gamepass_ownership e n uidv gid)) =
     [Http_get (''https://apis.roblox.com/game-passes/v1/users/'' @ py_str uidv
                  @ ''/game-passes?count=100'')]
   \<and> (gamepass_api e n (gamepasses_url uidv) = gamepass_api e' n (gamepasses_url uidv)
        \<longrightarrow> check_gamepass_ownership e n uidv gid = check_gamepass_ownership e' n uidv gid)
   \<and> (gamepass_api e n (gamepasses_url uidv) = first_page 100 owned
        \<and> (\<forall>gp\<in>set (take 100 owned). py_str (dict_get gp ''gamePassId'') \<noteq> py_str gid)
        \<longrightarrow> snd (check_gamepass_ownership e n uidv gid) = Inr False)"
proof -
  have a: "filter is_http (fst (check_gamepass_ownership e n uidv gid)) =
     [Http_get (''https://apis.roblox.com/game-passes/v1/users/'' @ py_str uidv
                  @ ''/game-passes?count=100'')]"
    using check_cases [of e n uidv gid] by (auto simp: is_http_def gamepasses_url_def)
  have b: "gamepass_api e n (gamepasses_url uidv) = gamepass_api e' n (gamepasses_url uidv)
        \<longrightarrow> check_gamepass_ownership e n uidv gid = check_gamepass_ownership e' n uidv gid"
    by (simp add: check_gamepass_ownership_def)
  have c: "gamepass_api e n (gamepasses_url uidv) = first_page 100 owned
        \<and> (\<forall>gp\<in>set (take 100 owned). py_str (dict_get gp ''gamePassId'') \<noteq> py_str gid)
        \<longrightarrow> snd (check_gamepass_ownership e n uidv gid) = Inr False"
    by (simp add: check_result find_gamepass_object iterate_def scan_gamepasses_objects
                  first_page_def)
  from a b c show ?thesis by blast
qed

theorem check_gamepass_ownership_single_page_witness:
  "(\<exists>gp\<in>set big_owner. py_str (dict_get gp ''gamePassId'') = py_str (PStr ''999''))
   \<and> snd (check_gamepass_ownership paged_env 0 (PInt 123) (PStr ''999'')) = Inr False"
  using check_gamepass_ownership_single_page
          [of paged_env 0 "PInt 123" "PStr ''999''" paged_env big_owner]
  by (simp add: paged_env_def big_owner_def dict_get_def str_int_999 str_int_1)

section \<open>Bounds on a handler invocation\<close>

lemma checks_simps [simp]:
  "checks [] = 0"
  "checks (Http_get u # es) = Suc (checks es)"
  "checks (Http_post u a # es) = checks es"
  "checks (Log l # es) = checks es"
  "checks (Followup i m # es) = checks es"
  "checks (Respond i m # es) = checks es"
  "checks (Edit_message c # es) = checks es"
  "checks (Wait_for i # es) = checks es"
  "checks (Sleep k # es) = checks es"
  "checks (es @ es') = checks es + checks es'"
  by (simp_all add: checks_def is_get_def)

lemma is_owned_log_simps [simp]:
  "is_owned_log (Http_get u) = False"
  "is_owned_log (Http_post u a) = False"
  "is_owned_log (Log l) = (case l of Log_owns _ \<Rightarrow> True | _ \<Rightarrow> False)"
  "is_owned_log (Followup i m) = False"
  "is_owned_log (Respond i m) = False"
  "is_owned_log (Edit_message c) = False"
  "is_owned_log (Wait_for i) = False"
  "is_owned_log (Sleep k) = False"
  by (simp_all add: is_owned_log_def)

lemma quiet_after_owned_append:
  "quiet_after_owned (xs @ ys) =
     (quiet_after_owned xs \<and> quiet_after_owned ys
      \<and> ((\<exists>x\<in>set xs. is_owned_log x) \<longrightarrow> checks ys = 0))"
  by (induction xs) auto

lemma check_effects:
  "check_gamepass_ownership e n u g = (es, b) \<Longrightarrow>
     checks es = 1 \<and> quiet_after_owned es \<and> ((\<exists>x\<in>set es. is_owned_log x) = (b = Inr True))"
  using check_cases [of e n u g] by auto

lemma get_user_id_effects:
  "get_user_id_from_username e n u = (es, r) \<Longrightarrow>
     checks es = 0 \<and> quiet_after_owned es \<and> \<not> (\<exists>x\<in>set es. is_owned_log x)"
  by (auto simp: get_user_id_from_username_def split: response.splits option.splits list.splits)

lemma after_loop_ok: "after_loop v t b = (es, p) \<Longrightarrow> loop_step_ok 0 es p \<and> \<not> (\<exists>x\<in>set es. is_owned_log x)"
  by (auto simp: after_loop_def loop_step_ok_def budget_left_def budget_def split: if_splits)

lemma except_clause_ok: "except_clause t ex = (es, p) \<Longrightarrow> loop_step_ok 0 es p \<and> \<not> (\<exists>x\<in>set es. is_owned_log x)"
  by (auto simp: except_clause_def loop_step_ok_def budget_left_def budget_def split: exn.splits)

lemma loop_step_ok_mono: "loop_step_ok b es p \<Longrightarrow> b \<le> b' \<Longrightarrow> loop_step_ok b' es p"
  by (simp add: loop_step_ok_def)

lemma loop_iteration_ok:
  assumes "loop_iteration e n v t k = (es, p)"
  shows "loop_step_ok (5 - k) es p"
proof (cases "k < 5")
  case False
  with assms have "after_loop v t False = (es, p)" by (simp add: loop_iteration_def)
  from after_loop_ok [OF this] show ?thesis by (auto intro: loop_step_ok_mono)
next
  case True
  obtain cs r where c: "check_gamepass_ownership e n (user_id t) (gamepass_id (item v)) = (cs, r)"
    by (cases "check_gamepass_ownership e n (user_id t) (gamepass_id (item v))")
  note ce = check_effects [OF c]
  show ?thesis
  proof (cases r)
    case (Inl ex)
    obtain as q where a: "except_clause t ex = (as, q)" by (cases "except_clause t ex")
    from assms True c Inl a have "es = Log (Log_attempt (k + 1)) # cs @ as" "p = q"
      by (simp_all add: loop_iteration_def)
    with except_clause_ok [OF a] ce True Inl show ?thesis
      by (auto simp: loop_step_ok_def quiet_after_owned_append)
  next
    case (Inr owned)
    show ?thesis
    proof (cases owned)
      case owned: True
      obtain as q where a: "after_loop v t True = (as, q)" by (cases "after_loop v t True")
      from assms \<open>k < 5\<close> c Inr owned a have "es = Log (Log_attempt (k + 1)) # cs @ as" "p = q"
        by (simp_all add: loop_iteration_def)
      with after_loop_ok [OF a] ce \<open>k < 5\<close> show ?thesis
        by (auto simp: loop_step_ok_def quiet_after_owned_append)
    next
      case notowned: False
      show ?thesis
      proof (cases "k < 4")
        case k4: True
        with assms \<open>k < 5\<close> c Inr notowned
        have "es = Log (Log_attempt (k + 1)) # cs @ [Followup (caller t) (Attempt_progress (k + 1))]"
          "p = Suspended (t\<lparr>pc := Progress_notice, attempt := k\<rparr>)"
          by (simp_all add: loop_iteration_def)
        with ce Inr notowned k4 show ?thesis
          by (auto simp: loop_step_ok_def quiet_after_owned_append budget_left_def budget_def)
      next
        case k4: False
        obtain as q where a: "after_loop v t False = (as, q)" by (cases "after_loop v t False")
        from assms \<open>k < 5\<close> c Inr notowned k4 a
        have "es = Log (Log_attempt (k + 1)) # cs @ as" "p = q"
          by (simp_all add: loop_iteration_def)
        with after_loop_ok [OF a] ce \<open>k < 5\<close> Inr notowned show ?thesis
          by (auto simp: loop_step_ok_def quiet_after_owned_append)
      qed
    qed
  qed
qed

lemma on_message_ok:
  assumes "on_message e n v t content = (es, p)"
  shows "loop_step_ok 5 es p"
proof -
  let ?t1 = "t\<lparr>roblox_username := strip content\<rparr>"
  obtain gs r where g: "get_user_id_from_username e n (strip content) = (gs, r)"
    by (cases "get_user_id_from_username e n (strip content)")
  note ge = get_user_id_effects [OF g]
  show ?thesis
  proof (cases r)
    case (Inl ex)
    obtain as q where a: "except_clause ?t1 ex = (as, q)" by (cases "except_clause ?t1 ex")
    from assms g Inl a have "es = Log (Log_username (strip content)) # gs @ as" "p = q"
      by (simp_all add: on_message_def Let_def)
    with except_clause_ok [OF a] ge show ?thesis
      by (auto simp: loop_step_ok_def quiet_after_owned_append)
  next
    case (Inr uidv)
    show ?thesis
    proof (cases "truthy uidv")
      case False
      with assms g Inr
      have "es = Log (Log_username (strip content)) # gs @ [Followup (caller t) Username_not_found]"
        "p = Suspended (?t1\<lparr>user_id := uidv, pc := Not_found_notice\<rparr>)"
        by (simp_all add: on_message_def Let_def)
      with ge show ?thesis
        by (auto simp: loop_step_ok_def quiet_after_owned_append budget_left_def budget_def)
    next
      case True
      let ?t2 = "?t1\<lparr>user_id := uidv\<rparr>"
      obtain ls q where l: "loop_iteration e (Suc n) v ?t2 0 = (ls, q)"
        by (cases "loop_iteration e (Suc n) v ?t2 0")
      from assms g Inr True l
      have "es = Log (Log_username (strip content)) # gs @ Log (Log_converted uidv) # ls" "p = q"
        by (simp_all add: on_message_def Let_def)
      with loop_iteration_ok [OF l] ge show ?thesis
        by (auto simp: loop_step_ok_def quiet_after_owned_append)
    qed
  qed
qed

lemma resume_ok:
  assumes "resume e n v t r = (v', es, p)"
  shows "loop_step_ok (budget t) es p"
proof (cases r)
  case (Raised ex)
  obtain as q where a: "except_clause t ex = (as, q)" by (cases "except_clause t ex")
  from except_clause_ok [OF a] have "loop_step_ok (budget t) as q"
    by (auto intro: loop_step_ok_mono)
  with assms Raised a show ?thesis
    by (cases "pc t") (auto simp: resume_def loop_step_ok_def budget_left_def)
next
  case (Returned content)
  show ?thesis
  proof (cases "pc t")
    case Wait_username
    obtain as q where a: "on_message e n v t content = (as, q)" by (cases "on_message e n v t content")
    from on_message_ok [OF a] assms Returned Wait_username a show ?thesis
      by (auto simp: resume_def budget_def)
  next
    case Sleeping
    obtain as q where a: "loop_iteration e n v t (attempt t + 1) = (as, q)"
      by (cases "loop_iteration e n v t (attempt t + 1)")
    from loop_iteration_ok [OF a] assms Returned Sleeping a show ?thesis
      by (auto simp: resume_def budget_def)
  qed (use assms Returned in \<open>auto simp: resume_def loop_step_ok_def budget_left_def budget_def\<close>)
qed

lemma run_ok: "run e n v t rs = (v', es, p) \<Longrightarrow> loop_step_ok (budget t) es p"
proof (induction rs arbitrary: n v t v' es p)
  case Nil
  then show ?case by (auto simp: loop_step_ok_def budget_left_def)
next
  case (Cons r rs)
  obtain v1 es1 p1 where r1: "resume e n v t r = (v1, es1, p1)" by (cases "resume e n v t r")
  note ok1 = resume_ok [OF r1]
  show ?case
  proof (cases p1)
    case (Finished out)
    with Cons.prems r1 ok1 show ?thesis by simp
  next
    case (Suspended t1)
    obtain v2 es2 p2 where r2: "run e (n + http_calls es1) v1 t1 rs = (v2, es2, p2)"
      by (cases "run e (n + http_calls es1) v1 t1 rs")
    from Cons.prems r1 Suspended r2 have eq: "es = es1 @ es2" "p = p2" by simp_all
    from Cons.IH [OF r2] have ok2: "loop_step_ok (budget t1) es2 p2" .
    from ok1 ok2 Suspended show ?thesis
      unfolding eq loop_step_ok_def by (auto simp: quiet_after_owned_append budget_left_def)
  qed
qed

lemma rank_le: "rank t \<le> 15"
  by (cases "pc t") (simp_all add: rank_def)

lemma rank_pos: "0 < rank t"
  by (cases "pc t") (simp_all add: rank_def)

lemma after_loop_rank: "after_loop v t b = (es, Suspended t') \<Longrightarrow> rank t' \<le> 4"
  by (auto simp: after_loop_def rank_def split: if_splits)

lemma after_loop_suspends: "\<exists>es t'. after_loop v t b = (es, Suspended t')"
  by (simp add: after_loop_def)

lemma except_clause_rank: "except_clause t ex = (es, Suspended t') \<Longrightarrow> rank t' = 1"
  by (auto simp: except_clause_def rank_def split: exn.splits)

lemma loop_iteration_rank:
  "loop_iteration e n v t k = (es, Suspended t') \<Longrightarrow> rank t' \<le> 2 * (4 - k) + 4"
  by (auto simp: loop_iteration_def rank_def Let_def after_loop_def except_clause_def
           split: if_splits prod.splits sum.splits exn.splits)

lemma on_message_rank: "on_message e n v t c = (es, Suspended t') \<Longrightarrow> rank t' \<le> 12"
  by (auto simp: on_message_def Let_def rank_def dest!: loop_iteration_rank except_clause_rank
           split: sum.splits prod.splits if_splits)

lemma resume_rank: "resume e n v t r = (v', es, Suspended t') \<Longrightarrow> rank t' < rank t"
  by (cases "pc t"; cases r)
     (auto simp: resume_def rank_def
           dest!: loop_iteration_rank except_clause_rank on_message_rank
           split: prod.splits)

lemma run_finishes:
  "rank t \<le> length rs \<Longrightarrow> \<exists>v' es out. run e n v t rs = (v', es, Finished out)"
proof (induction rs arbitrary: n v t)
  case Nil
  with rank_pos [of t] show ?case by simp
next
  case (Cons r rs)
  obtain v1 es1 p1 where r1: "resume e n v t r = (v1, es1, p1)" by (cases "resume e n v t r")
  show ?case
  proof (cases p1)
    case (Finished out)
    with r1 show ?thesis by simp
  next
    case (Suspended t1)
    with r1 have "rank t1 < rank t" by (auto dest: resume_rank)
    with Cons.prems have "rank t1 \<le> length rs" by simp
    from Cons.IH [OF this, of "n + http_calls es1" v1]
    obtain v2 es2 out where "run e (n + http_calls es1) v1 t1 rs = (v2, es2, Finished out)"
      by blast
    with r1 Suspended show ?thesis by simp
  qed
qed

lemma http_calls_simps [simp]:
  "http_calls [] = 0"
  "http_calls (Http_get u # es) = Suc (http_calls es)"
  "http_calls (Http_post u a # es) = Suc (http_calls es)"
  "http_calls (Log l # es) = http_calls es"
  "http_calls (Followup i m # es) = http_calls es"
  "http_calls (Respond i m # es) = http_calls es"
  "http_calls (Edit_message c # es) = http_calls es"
  "http_calls (Wait_for i # es) = http_calls es"
  "http_calls (Sleep k # es) = http_calls es"
  "http_calls (es @ es') = http_calls es + http_calls es'"
  by (simp_all add: http_calls_def is_http_def)

lemma check_http_calls [simp]: "http_calls (fst (check_gamepass_ownership e n u g)) = 1"
  using check_cases [of e n u g] by auto

lemma check_checks [simp]: "checks (fst (check_gamepass_ownership e n u g)) = 1"
  using check_cases [of e n u g] by auto

lemma get_user_id_http_calls [simp]: "http_calls (fst (get_user_id_from_username e n u)) = 1"
  by (simp add: get_user_id_from_username_def split: response.split option.split list.split)

lemma get_user_id_checks [simp]: "checks (fst (get_user_id_from_username e n u)) = 0"
  by (simp add: get_user_id_from_username_def split: response.split option.split list.split)

section \<open>The handlers step by step\<close>

lemma resume_Returned:
  "pc t = Notice \<Longrightarrow> resume e n v t (Returned x) = (v, [], Finished Rejected)"
  "pc t = Ack \<Longrightarrow> resume e n v t (Returned x) =
     (v, [Followup (caller t) Ask_username], Suspended (t\<lparr>pc := Prompt\<rparr>))"
  "pc t = Prompt \<Longrightarrow> resume e n v t (Returned x) =
     (v, [Wait_for (caller t)], Suspended (t\<lparr>pc := Wait_username\<rparr>))"
  "pc t = Wait_username \<Longrightarrow> resume e n v t (Returned x) = (v, on_message e n v t x)"
  "pc t = Not_found_notice \<Longrightarrow> resume e n v t (Returned x) =
     (v\<lparr>is_processing := False\<rparr>, [], Finished Failed_unresolved)"
  "pc t = Progress_notice \<Longrightarrow> resume e n v t (Returned x) =
     (v, [Sleep 5], Suspended (t\<lparr>pc := Sleeping\<rparr>))"
  "pc t = Sleeping \<Longrightarrow> resume e n v t (Returned x) = (v, loop_iteration e n v t (attempt t + 1))"
  "pc t = Verified_notice \<Longrightarrow> resume e n v t (Returned x) =
     (v, [Followup (caller t) (File_link (file_url (item v)))], Suspended (t\<lparr>pc := File_send\<rparr>))"
  "pc t = File_send \<Longrightarrow> resume e n v t (Returned x) =
     (v\<lparr>children := map (\<lambda>_. True) (children v)\<rparr>,
      [Edit_message (map (\<lambda>_. True) (children v))], Suspended (t\<lparr>pc := Delivery_edit\<rparr>))"
  "pc t = Delivery_edit \<Longrightarrow> resume e n v t (Returned x) =
     (v\<lparr>is_processing := False\<rparr>, [], Finished Delivered)"
  "pc t = Failed_notice \<Longrightarrow> resume e n v t (Returned x) =
     (v\<lparr>is_processing := False\<rparr>, [], Finished Failed_exhausted)"
  "pc t = Timeout_handler \<Longrightarrow> resume e n v t (Returned x) =
     (v\<lparr>is_processing := False\<rparr>, [], Finished Timed_out)"
  "pc t = Error_handler \<Longrightarrow> resume e n v t (Returned x) =
     (v\<lparr>is_processing := False\<rparr>, [], Finished Errored)"
  "pc t = Cancel_notice \<Longrightarrow> resume e n v t (Returned x) =
     (v\<lparr>children := map (\<lambda>_. True) (children v)\<rparr>,
      [Edit_message (map (\<lambda>_. True) (children v))], Suspended (t\<lparr>pc := Cancel_edit\<rparr>))"
  "pc t = Cancel_edit \<Longrightarrow> resume e n v t (Returned x) = (v, [], Finished Cancelled)"
  by (simp_all add: resume_def case_prod_beta)

lemma resume_Raised:
  "pc t = Notice \<or> pc t = Ack \<or> pc t = Prompt \<or> pc t = Cancel_notice \<or> pc t = Cancel_edit \<Longrightarrow>
     resume e n v t (Raised ex) = (v, [], Finished (Escaped ex))"
  "pc t = Timeout_handler \<or> pc t = Error_handler \<Longrightarrow>
     resume e n v t (Raised ex) = (v\<lparr>is_processing := False\<rparr>, [], Finished (Escaped ex))"
  "pc t = Wait_username \<or> pc t = Not_found_notice \<or> pc t = Progress_notice \<or> pc t = Sleeping
     \<or> pc t = Verified_notice \<or> pc t = File_send \<or> pc t = Delivery_edit \<or> pc t = Failed_notice \<Longrightarrow>
     resume e n v t (Raised ex) = (v, except_clause t ex)"
  by (auto simp: resume_def case_prod_beta)

lemma on_message_resolved:
  "snd (get_user_id_from_username e n (strip m)) = Inr u \<Longrightarrow> truthy u \<Longrightarrow>
   on_message e n v t m =
     (Log (Log_username (strip m)) # fst (get_user_id_from_username e n (strip m))
        @ Log (Log_converted u)
        # fst (loop_iteration e (Suc n) v (t\<lparr>roblox_username := strip m, user_id := u\<rparr>) 0),
      snd (loop_iteration e (Suc n) v (t\<lparr>roblox_username := strip m, user_id := u\<rparr>) 0))"
  by (simp add: on_message_def Let_def case_prod_beta)

lemma on_message_unresolved:
  "snd (get_user_id_from_username e n (strip m)) = Inr u \<Longrightarrow> \<not> truthy u \<Longrightarrow>
   on_message e n v t m =
     (Log (Log_username (strip m)) # fst (get_user_id_from_username e n (strip m))
        @ [Followup (caller t) Username_not_found],
      Suspended (t\<lparr>roblox_username := strip m, user_id := u, pc := Not_found_notice\<rparr>))"
  by (simp add: on_message_def Let_def case_prod_beta)

lemma loop_iteration_owned:
  "k < 5 \<Longrightarrow> snd (check_gamepass_ownership e n (user_id t) (gamepass_id (item v))) = Inr True \<Longrightarrow>
     loop_iteration e n v t k =
       (Log (Log_attempt (k + 1))
          # fst (check_gamepass_ownership e n (user_id t) (gamepass_id (item v)))
          @ [Followup (caller t) (Purchase_verified (name (item v)))],
        Suspended (t\<lparr>pc := Verified_notice\<rparr>))"
  by (simp add: loop_iteration_def after_loop_def case_prod_beta)

lemma loop_iteration_not_owned:
  "k < 4 \<Longrightarrow> snd (check_gamepass_ownership e n (user_id t) (gamepass_id (item v))) = Inr False \<Longrightarrow>
     loop_iteration e n v t k =
       (Log (Log_attempt (k + 1))
          # fst (check_gamepass_ownership e n (user_id t) (gamepass_id (item v)))
          @ [Followup (caller t) (Attempt_progress (k + 1))],
        Suspended (t\<lparr>pc := Progress_notice, attempt := k\<rparr>))"
  by (simp add: loop_iteration_def case_prod_beta)

lemma run_Nil_eq: "run e n v t [] = (v, [], Suspended t)"
  by simp

section \<open>The retry loop\<close>

text \<open>
  C1: whatever the platform answers and however the awaited calls end, a handler
  invocation makes at most 5 ownership checks and makes none after a check that returned
  owned; it ends within 15 resumptions. An iteration whose check returns owned makes that
  one check and leaves the loop with \<^verbatim>\<open>verified = True\<close>, suspended at the first send of the
  delivery. In particular, when the account resolves and the checks answer not owned,
  not owned, owned, and every awaited call returns, the run makes exactly 3 checks and
  ends Delivered.
\<close>

theorem retry_loop_at_most_five_checks:
  "checks (fst (snd (run e n v t rs))) \<le> 5
   \<and> quiet_after_owned (fst (snd (run e n v t rs)))
   \<and> (15 \<le> length rs \<longrightarrow> (\<exists>out. snd (snd (run e n v t rs)) = Finished out))
   \<and> (k < 5 \<and> snd (check_gamepass_ownership e n (user_id t) (gamepass_id (item v))) = Inr True \<longrightarrow>
        checks (fst (loop_iteration e n v t k)) = 1
        \<and> snd (loop_iteration e n v t k) = Suspended (t\<lparr>pc := Verified_notice\<rparr>))
   \<and> (pc t = Wait_username
        \<and> snd (get_user_id_from_username e n (strip m)) = Inr u \<and> truthy u
        \<and> snd (check_gamepass_ownership e (n + 1) u (gamepass_id (item v))) = Inr False
        \<and> snd (check_gamepass_ownership e (n + 2) u (gamepass_id (item v))) = Inr False
        \<and> snd (check_gamepass_ownership e (n + 3) u (gamepass_id (item v))) = Inr True \<longrightarrow>
        checks (fst (snd (run e n v t [Returned m, Returned [], Returned [], Returned [],
                  Returned [], Returned [], Returned [], Returned []]))) = 3
        \<and> snd (snd (run e n v t [Returned m, Returned [], Returned [], Returned [],
                  Returned [], Returned [], Returned [], Returned []])) = Finished Delivered)"
proof -
  obtain v' es p where r: "run e n v t rs = (v', es, p)" by (cases "run e n v t rs")
  from run_ok [OF r] have ok: "loop_step_ok (budget t) es p" .
  have "budget t \<le> 5" by (cases "pc t") (simp_all add: budget_def)
  with ok have a: "checks es \<le> 5" "quiet_after_owned es" by (simp_all add: loop_step_ok_def)
  have b: "15 \<le> length rs \<longrightarrow> (\<exists>out. snd (snd (run e n v t rs)) = Finished out)"
  proof
    assume "15 \<le> length rs"
    with rank_le [of t] have "rank t \<le> length rs" by simp
    from run_finishes [OF this, of e n v] show "\<exists>out. snd (snd (run e n v t rs)) = Finished out"
      by auto
  qed
  have c: "k < 5 \<and> snd (check_gamepass_ownership e n (user_id t) (gamepass_id (item v))) = Inr True \<longrightarrow>
        checks (fst (loop_iteration e n v t k)) = 1
        \<and> snd (loop_iteration e n v t k) = Suspended (t\<lparr>pc := Verified_notice\<rparr>)"
    by (simp add: loop_iteration_owned)
  have d: "pc t = Wait_username
        \<and> snd (get_user_id_from_username e n (strip m)) = Inr u \<and> truthy u
        \<and> snd (check_gamepass_ownership e (n + 1) u (gamepass_id (item v))) = Inr False
        \<and> snd (check_gamepass_ownership e (n + 2) u (gamepass_id (item v))) = Inr False
        \<and> snd (check_gamepass_ownership e (n + 3) u (gamepass_id (item v))) = Inr True \<longrightarrow>
        checks (fst (snd (run e n v t [Returned m, Returned [], Returned [], Returned [],
                  Returned [], Returned [], Returned [], Returned []]))) = 3
        \<and> snd (snd (run e n v t [Returned m, Returned [], Returned [], Returned [],
                  Returned [], Returned [], Returned [], Returned []])) = Finished Delivered"
    by (simp add: resume_Returned on_message_resolved loop_iteration_owned
                  loop_iteration_not_owned eval_nat_numeral)
  from a b c d r show ?thesis by simp
qed

lemma strip_Bob: "strip '' Bob '' = ''Bob''"
  by (simp add: strip_def is_space_def)

lemma bob_env_resolves: "snd (get_user_id_from_username bob_env n u) = Inr (PInt 123)"
  by (simp add: get_user_id_from_username_def bob_env_def)

theorem retry_loop_at_most_five_checks_witness:
  "checks (fst (snd (run bob_env 0 skin_view (new_task Wait_username 7)
      [Returned '' Bob '', Returned [], Returned [], Returned [],
       Returned [], Returned [], Returned [], Returned []]))) = 3
   \<and> snd (snd (run bob_env 0 skin_view (new_task Wait_username 7)
      [Returned '' Bob '', Returned [], Returned [], Returned [],
       Returned [], Returned [], Returned [], Returned []])) = Finished Delivered
   \<and> quiet_after_owned (fst (snd (run bob_env 0 skin_view (new_task Wait_username 7)
      [Returned '' Bob '', Returned [], Returned [], Returned [],
       Returned [], Returned [], Returned [], Returned []])))"
  using retry_loop_at_most_five_checks
          [of bob_env 0 skin_view "new_task Wait_username 7"
              "[Returned '' Bob '', Returned [], Returned [], Returned [],
                Returned [], Returned [], Returned [], Returned []]" 0 "'' Bob ''" "PInt 123"]
  by (simp add: strip_Bob bob_env_resolves bob_env_checks new_task_def skin_view_def
                PurchaseConfirmView_def skin_a_def)

section \<open>Release of the processing flag\<close>

text \<open>
  Inside the \<^verbatim>\<open>try\<close> statement every exit clears the flag: the task has passed the two
  sends that precede it.
\<close>

lemma finally_clears_flag:
  "is_run t \<Longrightarrow> pc t \<noteq> Ack \<Longrightarrow> pc t \<noteq> Prompt \<Longrightarrow>
     resume e n v t r = (v', es, Finished out) \<Longrightarrow> \<not> is_processing v'"
  by (cases "pc t"; cases r)
     (auto simp: resume_Returned resume_Raised is_run_def on_message_def loop_iteration_def
                 after_loop_def except_clause_def Let_def
           split: prod.splits sum.splits if_splits exn.splits)

text \<open>
  C3: every exit path of a verification run is claimed to clear the processing flag.
  The flag is set before the acknowledgement and the prompt are sent, and both sends are
  outside the \<^verbatim>\<open>try\<close> statement: when the acknowledgement raises, the handler ends with the
  flag still set, no run is in flight, and the buyer's next press is rejected as already
  in progress.
\<close>

theorem bought_button_flag_stuck:
  "bought_button skin_view 7 =
     (skin_view\<lparr>is_processing := True\<rparr>, [Respond 7 Verifying_please_wait], new_task Ack 7)
   \<and> resume e n (skin_view\<lparr>is_processing := True\<rparr>) (new_task Ack 7) (Raised OtherException) =
     (skin_view\<lparr>is_processing := True\<rparr>, [], Finished (Escaped OtherException))
   \<and> exec e (new_session skin_view) [Press_bought 7, Resume 0 (Raised OtherException)] =
     \<lparr>cview = skin_view\<lparr>is_processing := True\<rparr>, tasks = [],
      trace = [Respond 7 Verifying_please_wait], outcomes = [Escaped OtherException]\<rparr>
   \<and> bought_button (skin_view\<lparr>is_processing := True\<rparr>) 7 =
     (skin_view\<lparr>is_processing := True\<rparr>, [Respond 7 Already_in_progress], new_task Notice 7)"
  by (simp add: bought_button_def skin_view_def PurchaseConfirmView_def new_task_def
                resume_Raised exec_def step_def new_session_def)

section \<open>An account name that does not resolve\<close>

text \<open>
  C5: when the account name resolves to no account id (the value returned is falsy; so
  it is when the lookup fails or lists no match), the handler sends the not-found notice
  and, when that send returns, clears the flag and returns: the run ends Failed without
  entering the loop. No ownership check is made, however the run goes on.
\<close>

theorem unresolved_username_no_checks:
  assumes "pc t = Wait_username"
    and "snd (get_user_id_from_username e n (strip m)) = Inr u" and "\<not> truthy u"
  shows "checks (fst (snd (run e n v t (Returned m # rs)))) = 0
     \<and> run e n v t [Returned m] =
         (v, Log (Log_username (strip m)) # fst (get_user_id_from_username e n (strip m))
               @ [Followup (caller t) Username_not_found],
          Suspended (t\<lparr>roblox_username := strip m, user_id := u, pc := Not_found_notice\<rparr>))
     \<and> run e n v t [Returned m, Returned x] =
         (v\<lparr>is_processing := False\<rparr>,
          Log (Log_username (strip m)) # fst (get_user_id_from_username e n (strip m))
               @ [Followup (caller t) Username_not_found],
          Finished Failed_unresolved)
     \<and> ((case users_api e n nm of
            Request_exception \<Rightarrow> True
          | Body d \<Rightarrow> d ''data'' = None \<or> d ''data'' = Some []) \<longrightarrow>
         snd (get_user_id_from_username e n nm) = Inr PNone)"
proof -
  let ?t1 = "t\<lparr>roblox_username := strip m, user_id := u, pc := Not_found_notice\<rparr>"
  let ?es1 = "Log (Log_username (strip m)) # fst (get_user_id_from_username e n (strip m))
               @ [Followup (caller t) Username_not_found]"
  have r1: "resume e n v t (Returned m) = (v, ?es1, Suspended ?t1)"
    using assms by (simp add: resume_Returned on_message_unresolved)
  obtain v2 es2 p2 where r2: "run e (n + http_calls ?es1) v ?t1 rs = (v2, es2, p2)"
    by (cases "run e (n + http_calls ?es1) v ?t1 rs")
  from run_ok [OF r2] have "checks es2 = 0" by (simp add: loop_step_ok_def budget_def)
  with r1 r2 have a: "checks (fst (snd (run e n v t (Returned m # rs)))) = 0" by simp
  have b: "run e n v t [Returned m] = (v, ?es1, Suspended ?t1)"
    using r1 by simp
  have c: "run e n v t [Returned m, Returned x] =
         (v\<lparr>is_processing := False\<rparr>, ?es1, Finished Failed_unresolved)"
    using r1 by (simp add: resume_Returned)
  have d: "(case users_api e n nm of
            Request_exception \<Rightarrow> True
          | Body d \<Rightarrow> d ''data'' = None \<or> d ''data'' = Some []) \<longrightarrow>
         snd (get_user_id_from_username e n nm) = Inr PNone"
    by (auto simp: get_user_id_from_username_def split: response.splits)
  from a b c d show ?thesis by simp
qed

lemma nobody_env_unresolved: "snd (get_user_id_from_username nobody_env n u) = Inr PNone"
  by (simp add: get_user_id_from_username_def nobody_env_def)

theorem unresolved_username_no_checks_witness:
  "checks (fst (snd (run nobody_env 0 skin_view (new_task Wait_username 7)
      [Returned ''Nobody'', Returned [], Returned []]))) = 0
   \<and> snd (snd (run nobody_env 0 skin_view (new_task Wait_username 7)
      [Returned ''Nobody'', Returned []])) = Finished Failed_unresolved"
  using unresolved_username_no_checks
          [of "new_task Wait_username 7" nobody_env 0 "''Nobody''" PNone skin_view
              "[Returned [], Returned []]" "[]" "''Nobody''"]
  by (simp add: nobody_env_unresolved new_task_def)

section \<open>Delivery\<close>

lemma deliveries_simps [simp]:
  "deliveries [] = []"
  "deliveries (Http_get u # es) = deliveries es"
  "deliveries (Http_post u a # es) = deliveries es"
  "deliveries (Log l # es) = deliveries es"
  "deliveries (Followup i (File_link f) # es) = Followup i (File_link f) # deliveries es"
  "deliveries (Respond i m # es) = deliveries es"
  "deliveries (Edit_message c # es) = deliveries es"
  "deliveries (Wait_for i # es) = deliveries es"
  "deliveries (Sleep k # es) = deliveries es"
  "deliveries (es @ es') = deliveries es @ deliveries es'"
  by (simp_all add: deliveries_def is_file_send_def)

lemma deliveries_notice [simp]:
  "deliveries (Followup i Ask_username # es) = deliveries es"
  "deliveries (Followup i Username_not_found # es) = deliveries es"
  "deliveries (Followup i (Attempt_progress k) # es) = deliveries es"
  "deliveries (Followup i (Purchase_verified nm) # es) = deliveries es"
  "deliveries (Followup i (Verification_failed un g) # es) = deliveries es"
  "deliveries (Followup i Timed_out_notice # es) = deliveries es"
  "deliveries (Followup i Error_notice # es) = deliveries es"
  by (simp_all add: deliveries_def is_file_send_def)

lemma check_deliveries [simp]: "deliveries (fst (check_gamepass_ownership e n u g)) = []"
  using check_cases [of e n u g] by auto

lemma get_user_id_deliveries [simp]: "deliveries (fst (get_user_id_from_username e n u)) = []"
  by (simp add: get_user_id_from_username_def split: response.split option.split list.split)

lemma after_loop_no_delivery: "no_delivery_step t (after_loop v t b)"
  by (simp add: no_delivery_step_def after_loop_def file_sent_def before_delivery_def)

lemma except_clause_no_delivery:
  "deliveries (fst (except_clause t ex)) = []
   \<and> (\<exists>t'. snd (except_clause t ex) = Suspended t' \<and> caller t' = caller t
            \<and> \<not> file_sent t' \<and> \<not> before_delivery t')"
  by (simp add: except_clause_def file_sent_def before_delivery_def split: exn.split)

lemma loop_iteration_no_delivery: "no_delivery_step t (loop_iteration e n v t k)"
proof (cases "snd (check_gamepass_ownership e n (user_id t) (gamepass_id (item v)))")
  case (Inl ex)
  with except_clause_no_delivery [of t ex] after_loop_no_delivery [of t v False] show ?thesis
    by (auto simp: loop_iteration_def no_delivery_step_def case_prod_beta)
next
  case (Inr owned)
  with after_loop_no_delivery [of t v True] after_loop_no_delivery [of t v False] show ?thesis
    by (auto simp: loop_iteration_def no_delivery_step_def case_prod_beta file_sent_def
                   before_delivery_def)
qed

lemma on_message_no_delivery: "no_delivery_step t (on_message e n v t m)"
proof (cases "snd (get_user_id_from_username e n (strip m))")
  case (Inl ex)
  with except_clause_no_delivery [of "t\<lparr>roblox_username := strip m\<rparr>" ex] show ?thesis
    by (auto simp: on_message_def Let_def case_prod_beta no_delivery_step_def)
next
  case (Inr u)
  show ?thesis
  proof (cases "truthy u")
    case True
    with Inr loop_iteration_no_delivery [of "t\<lparr>roblox_username := strip m, user_id := u\<rparr>" e "Suc n" v 0]
    show ?thesis by (auto simp: on_message_resolved no_delivery_step_def)
  next
    case False
    with Inr show ?thesis
      by (simp add: on_message_unresolved no_delivery_step_def file_sent_def before_delivery_def)
  qed
qed

lemma resume_item: "resume e n v t r = (v', es, p) \<Longrightarrow> item v' = item v \<and> user v' = user v"
  by (cases "pc t"; cases r) (auto simp: resume_Returned resume_Raised)

lemma resume_delivery:
  assumes "resume e n v t r = (v', es, p)"
  shows "(deliveries es = [] \<or> (pc t = Verified_notice \<and> deliveries es = [the_file_send v t]))
       \<and> (\<forall>t'. p = Suspended t' \<longrightarrow> caller t' = caller t)
       \<and> (\<forall>t'. p = Suspended t' \<and> before_delivery t' \<longrightarrow> before_delivery t \<and> deliveries es = [])
       \<and> (reached_delivery p \<longrightarrow>
            (file_sent t \<and> deliveries es = [])
            \<or> (pc t = Verified_notice \<and> deliveries es = [the_file_send v t]))"
proof (cases r)
  case (Raised ex)
  with assms except_clause_no_delivery [of t ex] show ?thesis
    by (cases "pc t")
       (auto simp: resume_Raised reached_delivery_def)
next
  case (Returned x)
  show ?thesis
  proof (cases "pc t")
    case Wait_username
    with assms Returned on_message_no_delivery [of t e n v x] show ?thesis
      by (auto simp: resume_Returned no_delivery_step_def reached_delivery_def before_delivery_def)
  next
    case Sleeping
    with assms Returned loop_iteration_no_delivery [of t e n v "attempt t + 1"] show ?thesis
      by (auto simp: resume_Returned no_delivery_step_def reached_delivery_def before_delivery_def)
  qed (use assms Returned in \<open>auto simp: resume_Returned reached_delivery_def file_sent_def
         before_delivery_def the_file_send_def\<close>)
qed


lemma run_delivery:
  "run e n v t rs = (v', es, p) \<Longrightarrow>
     (\<not> before_delivery t \<longrightarrow> deliveries es = [])
     \<and> (deliveries es = [] \<or> deliveries es = [the_file_send v t])
     \<and> (reached_delivery p \<longrightarrow>
          (if before_delivery t then deliveries es = [the_file_send v t] else file_sent t))"
proof (induction rs arbitrary: n v t v' es p)
  case Nil
  then show ?case
    by (auto simp: reached_delivery_def file_sent_def before_delivery_def)
next
  case (Cons r rs)
  obtain v1 es1 p1 where r1: "resume e n v t r = (v1, es1, p1)" by (cases "resume e n v t r")
  note d1 = resume_delivery [OF r1]
  have disj: "\<not> (file_sent t \<and> before_delivery t)"
    by (auto simp: file_sent_def before_delivery_def)
  have ver: "pc t = Verified_notice \<Longrightarrow> before_delivery t"
    by (simp add: before_delivery_def)
  show ?case
  proof (cases p1)
    case (Finished out)
    with Cons.prems r1 have "es = es1" "p = p1" by simp_all
    with d1 disj ver show ?thesis by auto
  next
    case (Suspended t1)
    obtain v2 es2 p2 where r2: "run e (n + http_calls es1) v1 t1 rs = (v2, es2, p2)"
      by (cases "run e (n + http_calls es1) v1 t1 rs")
    from Cons.prems r1 Suspended r2 have eq: "es = es1 @ es2" "p = p2" by simp_all
    note ih = Cons.IH [OF r2]
    from d1 Suspended have c: "caller t1 = caller t" by simp
    from resume_item [OF r1] c have same: "the_file_send v1 t1 = the_file_send v t"
      by (simp add: the_file_send_def)
    show ?thesis
    proof (cases "before_delivery t1")
      case True
      with d1 Suspended have "before_delivery t" "deliveries es1 = []" by auto
      with ih True same show ?thesis unfolding eq by auto
    next
      case False
      with ih have e2: "deliveries es2 = []" by simp
      from ih False have "reached_delivery p2 \<longrightarrow> file_sent t1" by simp
      then have "reached_delivery p2 \<longrightarrow> reached_delivery p1"
        using Suspended by (simp add: reached_delivery_def)
      with d1 e2 disj ver show ?thesis unfolding eq by auto
    qed
  qed
qed

lemma delivery_tail:
  "pc t = Verified_notice \<Longrightarrow>
     run e n v t [Returned a, Returned b, Returned c] =
       (v\<lparr>children := map (\<lambda>_. True) (children v), is_processing := False\<rparr>,
        [Followup (caller t) (File_link (file_url (item v))),
         Edit_message (map (\<lambda>_. True) (children v))],
        Finished Delivered)"
  by (simp add: resume_Returned)

lemma except_clause_other:
  "except_clause t OtherException =
     ([Log (Log_verification_error OtherException), Followup (caller t) Error_notice],
      Suspended (t\<lparr>pc := Error_handler\<rparr>))"
  by (simp add: except_clause_def)

lemma bob_env_effects:
  "fst (get_user_id_from_username bob_env n u) = [Http_post users_url u]"
  "fst (check_gamepass_ownership bob_env n (PInt 123) (PStr ''999'')) =
     [Http_get (gamepasses_url (PInt 123)), Log (Log_checking (PInt 123)),
      Log ((if n = 3 then Log_owns else Log_not_owned) (PStr ''999''))]"
  by (simp_all add: get_user_id_from_username_def check_gamepass_ownership_def bob_env_def
        find_gamepass_object iterate_def dict_get_def str_int_999)

text \<open>
  C7 as stated fails: it claims that every run that ends with an owned result sends the
  file link, never zero times. In the scenario the third check returns owned, the send of
  the verified notice raises, the \<^verbatim>\<open>except\<close> clause reports an error and the run ends
  without a file link having been sent.
\<close>

theorem owned_but_notice_raises:
  "run bob_env 0 (skin_view\<lparr>is_processing := True\<rparr>) (new_task Ack 7)
     [Returned [], Returned [], Returned '' Bob '', Returned [], Returned [], Returned [],
      Returned [], Raised OtherException, Returned []] =
   (skin_view,
    [Followup 7 Ask_username, Wait_for 7, Log (Log_username ''Bob''),
     Http_post users_url ''Bob'', Log (Log_converted (PInt 123)),
     Log (Log_attempt 1), Http_get (gamepasses_url (PInt 123)), Log (Log_checking (PInt 123)),
     Log (Log_not_owned (PStr ''999'')), Followup 7 (Attempt_progress 1), Sleep 5,
     Log (Log_attempt 2), Http_get (gamepasses_url (PInt 123)), Log (Log_checking (PInt 123)),
     Log (Log_not_owned (PStr ''999'')), Followup 7 (Attempt_progress 2), Sleep 5,
     Log (Log_attempt 3), Http_get (gamepasses_url (PInt 123)), Log (Log_checking (PInt 123)),
     Log (Log_owns (PStr ''999'')), Followup 7 (Purchase_verified ''Skin A''),
     Log (Log_verification_error OtherException), Followup 7 Error_notice],
    Finished Errored)
   \<and> deliveries
        [Followup 7 Ask_username, Wait_for 7, Log (Log_username ''Bob''),
         Http_post users_url ''Bob'', Log (Log_converted (PInt 123)),
         Log (Log_attempt 1), Http_get (gamepasses_url (PInt 123)), Log (Log_checking (PInt 123)),
         Log (Log_not_owned (PStr ''999'')), Followup 7 (Attempt_progress 1), Sleep 5,
         Log (Log_attempt 2), Http_get (gamepasses_url (PInt 123)), Log (Log_checking (PInt 123)),
         Log (Log_not_owned (PStr ''999'')), Followup 7 (Attempt_progress 2), Sleep 5,
         Log (Log_attempt 3), Http_get (gamepasses_url (PInt 123)), Log (Log_checking (PInt 123)),
         Log (Log_owns (PStr ''999'')), Followup 7 (Purchase_verified ''Skin A''),
         Log (Log_verification_error OtherException), Followup 7 Error_notice] = []"
  by (simp add: resume_Returned resume_Raised except_clause_other on_message_resolved
        loop_iteration_owned loop_iteration_not_owned new_task_def strip_Bob bob_env_resolves
        bob_env_checks bob_env_effects skin_view_def PurchaseConfirmView_def skin_a_def)

text \<open>
  C7, amended: a run whose loop ended with an owned result stands at the send of the
  verified notice; when that send, the send of the file link and the edit of the message
  return, the item's file link has been sent once, the controls are disabled, the flag
  is cleared and the run ends Delivered. Every run that ends Delivered has sent the
  item's file link exactly once, to its caller, and no run sends a file link twice.
\<close>

theorem file_sent_exactly_once:
  "length (deliveries (fst (snd (run e n v t rs)))) \<le> 1
   \<and> (before_delivery t \<and> snd (snd (run e n v t rs)) = Finished Delivered \<longrightarrow>
        deliveries (fst (snd (run e n v t rs))) =
          [Followup (caller t) (File_link (file_url (item v)))])
   \<and> (k < 5 \<and> snd (check_gamepass_ownership e n (user_id t) (gamepass_id (item v))) = Inr True \<longrightarrow>
        snd (loop_iteration e n v t k) = Suspended (t\<lparr>pc := Verified_notice\<rparr>))
   \<and> (pc t = Verified_notice \<longrightarrow>
        run e n v t [Returned a, Returned b, Returned c] =
          (v\<lparr>children := map (\<lambda>_. True) (children v), is_processing := False\<rparr>,
           [Followup (caller t) (File_link (file_url (item v))),
            Edit_message (map (\<lambda>_. True) (children v))],
           Finished Delivered))"
proof -
  obtain v' es p where r: "run e n v t rs = (v', es, p)" by (cases "run e n v t rs")
  note d = run_delivery [OF r]
  from d r have a: "length (deliveries (fst (snd (run e n v t rs)))) \<le> 1" by auto
  from d r have b: "before_delivery t \<and> snd (snd (run e n v t rs)) = Finished Delivered \<longrightarrow>
      deliveries (fst (snd (run e n v t rs))) =
        [Followup (caller t) (File_link (file_url (item v)))]"
    by (auto simp: reached_delivery_def the_file_send_def)
  have c: "k < 5 \<and> snd (check_gamepass_ownership e n (user_id t) (gamepass_id (item v))) = Inr True \<longrightarrow>
        snd (loop_iteration e n v t k) = Suspended (t\<lparr>pc := Verified_notice\<rparr>)"
    by (simp add: loop_iteration_owned)
  have d: "pc t = Verified_notice \<longrightarrow>
        run e n v t [Returned a, Returned b, Returned c] =
          (v\<lparr>children := map (\<lambda>_. True) (children v), is_processing := False\<rparr>,
           [Followup (caller t) (File_link (file_url (item v))),
            Edit_message (map (\<lambda>_. True) (children v))],
           Finished Delivered)"
    by (intro impI delivery_tail)
  from a b c d show ?thesis by blast
qed

theorem file_sent_exactly_once_witness:
  "before_delivery (new_task Ack 7)
   \<and> snd (snd (run bob_env 0 (skin_view\<lparr>is_processing := True\<rparr>) (new_task Ack 7)
        [Returned [], Returned [], Returned '' Bob '', Returned [], Returned [], Returned [],
         Returned [], Returned [], Returned [], Returned []])) = Finished Delivered
   \<and> deliveries (fst (snd (run bob_env 0 (skin_view\<lparr>is_processing := True\<rparr>) (new_task Ack 7)
        [Returned [], Returned [], Returned '' Bob '', Returned [], Returned [], Returned [],
         Returned [], Returned [], Returned [], Returned []]))) =
       [Followup 7 (File_link ''https://files/skinA'')]"
proof -
  have fin: "snd (snd (run bob_env 0 (skin_view\<lparr>is_processing := True\<rparr>) (new_task Ack 7)
        [Returned [], Returned [], Returned '' Bob '', Returned [], Returned [], Returned [],
         Returned [], Returned [], Returned [], Returned []])) = Finished Delivered"
    by (simp add: resume_Returned on_message_resolved loop_iteration_owned
                  loop_iteration_not_owned new_task_def strip_Bob bob_env_resolves
                  bob_env_checks skin_view_def PurchaseConfirmView_def skin_a_def)
  have bd: "before_delivery (new_task Ack 7)"
    by (simp add: before_delivery_def new_task_def)
  from file_sent_exactly_once
         [of bob_env 0 "skin_view\<lparr>is_processing := True\<rparr>" "new_task Ack 7"
             "[Returned [], Returned [], Returned '' Bob '', Returned [], Returned [],
               Returned [], Returned [], Returned [], Returned [], Returned []]"] fin bd
  show ?thesis
    by (simp add: new_task_def skin_view_def PurchaseConfirmView_def skin_a_def)
qed

section \<open>Sessions\<close>

lemma exec_snoc: "exec e s (evs @ [ev]) = step e (exec e s evs) ev"
  by (simp add: exec_def)

lemma exec_Nil: "exec e s [] = s"
  by (simp add: exec_def)

lemma exec_Cons: "exec e s (ev # evs) = exec e (step e s ev) evs"
  by (simp add: exec_def)

lemma step_Press_bought:
  "step e s (Press_bought uid) =
     s\<lparr>cview := fst (bought_button (cview s) uid),
       tasks := tasks s @ [snd (snd (bought_button (cview s) uid))],
       trace := trace s @ fst (snd (bought_button (cview s) uid))\<rparr>"
  by (simp add: step_def case_prod_beta)

lemma step_Press_cancel:
  "step e s (Press_cancel uid) =
     s\<lparr>cview := fst (cancel_button (cview s) uid),
       tasks := tasks s @ [snd (snd (cancel_button (cview s) uid))],
       trace := trace s @ fst (snd (cancel_button (cview s) uid))\<rparr>"
  by (simp add: step_def case_prod_beta)

lemma step_Resume_Suspended:
  "i < length (tasks s) \<Longrightarrow>
   resume e (http_calls (trace s)) (cview s) (tasks s ! i) r = (v, es, Suspended t) \<Longrightarrow>
   step e s (Resume i r) = s\<lparr>cview := v, tasks := (tasks s)[i := t], trace := trace s @ es\<rparr>"
  by (simp add: step_def)

lemma step_Resume_Finished:
  "i < length (tasks s) \<Longrightarrow>
   resume e (http_calls (trace s)) (cview s) (tasks s ! i) r = (v, es, Finished out) \<Longrightarrow>
   step e s (Resume i r) =
     s\<lparr>cview := v, tasks := take i (tasks s) @ drop (Suc i) (tasks s),
       trace := trace s @ es, outcomes := outcomes s @ [out]\<rparr>"
  by (simp add: step_def)

lemma step_Resume_none: "\<not> i < length (tasks s) \<Longrightarrow> step e s (Resume i r) = s"
  by (simp add: step_def)

text \<open>The pieces of the run suspend as tasks of the run.\<close>

lemma after_loop_is_run: "\<exists>t'. snd (after_loop v t b) = Suspended t' \<and> is_run t'"
  by (simp add: after_loop_def is_run_def)

lemma except_clause_is_run: "\<exists>t'. snd (except_clause t ex) = Suspended t' \<and> is_run t'"
  by (simp add: except_clause_def is_run_def split: exn.split)

lemma loop_iteration_is_run: "\<exists>t'. snd (loop_iteration e n v t k) = Suspended t' \<and> is_run t'"
proof (cases "snd (check_gamepass_ownership e n (user_id t) (gamepass_id (item v)))")
  case (Inl ex)
  with except_clause_is_run [of t ex] after_loop_is_run [of v t False] show ?thesis
    by (auto simp: loop_iteration_def case_prod_beta)
next
  case (Inr owned)
  with after_loop_is_run [of v t True] after_loop_is_run [of v t False] show ?thesis
    by (auto simp: loop_iteration_def case_prod_beta is_run_def)
qed

lemma on_message_is_run: "\<exists>t'. snd (on_message e n v t m) = Suspended t' \<and> is_run t'"
proof (cases "snd (get_user_id_from_username e n (strip m))")
  case (Inl ex)
  with except_clause_is_run [of "t\<lparr>roblox_username := strip m\<rparr>" ex] show ?thesis
    by (auto simp: on_message_def Let_def case_prod_beta)
next
  case (Inr u)
  with loop_iteration_is_run [of e "Suc n" v "t\<lparr>roblox_username := strip m, user_id := u\<rparr>" 0]
  show ?thesis
    by (cases "truthy u") (auto simp: on_message_resolved on_message_unresolved is_run_def)
qed

lemma resume_flag:
  assumes "resume e n v t r = (v', es, p)"
  shows "(\<forall>t'. p = Suspended t' \<longrightarrow> is_run t' = is_run t \<and> is_processing v' = is_processing v)
       \<and> (\<not> is_run t \<longrightarrow> is_processing v' = is_processing v \<and> http_calls es = 0)"
proof (cases r)
  case (Raised ex)
  with assms except_clause_is_run [of t ex] show ?thesis
    by (cases "pc t") (auto simp: resume_Raised is_run_def)
next
  case (Returned x)
  show ?thesis
  proof (cases "pc t")
    case Wait_username
    with assms Returned on_message_is_run [of e n v t x] show ?thesis
      by (auto simp: resume_Returned is_run_def)
  next
    case Sleeping
    with assms Returned loop_iteration_is_run [of e n v t "attempt t + 1"] show ?thesis
      by (auto simp: resume_Returned is_run_def)
  qed (use assms Returned in \<open>auto simp: resume_Returned is_run_def\<close>)
qed

text \<open>The pieces of the run read the item of the view and nothing else of it.\<close>

lemma after_loop_children: "after_loop (v\<lparr>children := c\<rparr>) t b = after_loop v t b"
  by (simp add: after_loop_def)

lemma loop_iteration_children:
  "loop_iteration e n (v\<lparr>children := c\<rparr>) t k = loop_iteration e n v t k"
  by (simp add: loop_iteration_def after_loop_children Let_def split: sum.split prod.split)

lemma on_message_children: "on_message e n (v\<lparr>children := c\<rparr>) t m = on_message e n v t m"
  by (simp add: on_message_def loop_iteration_children Let_def split: sum.split prod.split)

lemma resume_commutes_with_disabling:
  "is_run t \<Longrightarrow>
     resume e n (v\<lparr>children := map (\<lambda>_. True) (children v)\<rparr>) t r =
       (case resume e n v t r of
          (v', es, p) \<Rightarrow> (v'\<lparr>children := map (\<lambda>_. True) (children v')\<rparr>, es, p))"
  by (cases "pc t"; cases r)
     (simp_all add: resume_Returned resume_Raised is_run_def loop_iteration_children on_message_children
                    case_prod_beta)


lemma count_update:
  "i < length xs \<Longrightarrow> P y = P (xs ! i) \<Longrightarrow>
     length (filter P (xs[i := y])) = length (filter P xs)"
  by (induction xs arbitrary: i) (auto simp: nth_Cons split: nat.splits)

lemma count_remove:
  assumes "i < length xs"
  shows "length (filter P (take i xs @ drop (Suc i) xs)) + (if P (xs ! i) then 1 else 0) =
       length (filter P xs)"
proof -
  from id_take_nth_drop [OF assms]
  have "length (filter P xs) = length (filter P (take i xs @ xs ! i # drop (Suc i) xs))"
    by (rule arg_cong [where f = "\<lambda>l. length (filter P l)"])
  then show ?thesis by simp
qed

lemma bought_button_cases:
  "(bought_button v uid = (v, [Respond uid Not_for_you], new_task Notice uid)
      \<and> uid \<noteq> user v)
   \<or> (bought_button v uid = (v, [Respond uid Already_in_progress], new_task Notice uid)
      \<and> uid = user v \<and> is_processing v)
   \<or> (bought_button v uid =
        (v\<lparr>is_processing := True\<rparr>, [Respond uid Verifying_please_wait], new_task Ack uid)
      \<and> uid = user v \<and> \<not> is_processing v)"
  by (simp add: bought_button_def)

lemma cancel_button_cases:
  "(cancel_button v uid = (v, [Respond uid Not_for_you], new_task Notice uid) \<and> uid \<noteq> user v)
   \<or> (cancel_button v uid = (v, [Respond uid Purchase_cancelled], new_task Cancel_notice uid)
      \<and> uid = user v)"
  by (simp add: cancel_button_def)

lemma is_run_new_task [simp]:
  "is_run (new_task Notice uid) = False"
  "is_run (new_task Cancel_notice uid) = False"
  "is_run (new_task Ack uid) = True"
  by (simp_all add: is_run_def new_task_def)

lemma step_single_flight:
  assumes "single_flight s"
  shows "single_flight (step e s ev)"
proof (cases ev)
  case (Press_bought uid)
  from assms have "\<not> is_processing (cview s) \<Longrightarrow> runs s = 0"
    by (auto simp: single_flight_def)
  with assms bought_button_cases [of "cview s" uid] Press_bought show ?thesis
    by (auto simp: step_Press_bought single_flight_def runs_def)
next
  case (Press_cancel uid)
  with assms cancel_button_cases [of "cview s" uid] show ?thesis
    by (auto simp: step_Press_cancel single_flight_def runs_def)
next
  case (Resume i r)
  show ?thesis
  proof (cases "i < length (tasks s)")
    case False
    with assms Resume show ?thesis by (simp add: step_Resume_none)
  next
    case True
    obtain v es p where r: "resume e (http_calls (trace s)) (cview s) (tasks s ! i) r = (v, es, p)"
      by (cases "resume e (http_calls (trace s)) (cview s) (tasks s ! i) r")
    note f = resume_flag [OF r]
    show ?thesis
    proof (cases p)
      case (Suspended t)
      with f have "is_run t = is_run (tasks s ! i)" "is_processing v = is_processing (cview s)"
        by simp_all
      with assms True show ?thesis
        unfolding Resume step_Resume_Suspended [OF True r [unfolded Suspended]]
        by (simp add: single_flight_def runs_def count_update)
    next
      case (Finished out)
      from count_remove [OF True, of is_run]
      have c: "length (filter is_run (take i (tasks s) @ drop (Suc i) (tasks s)))
                 + (if is_run (tasks s ! i) then 1 else 0) = runs s"
        by (simp add: runs_def)
      show ?thesis
      proof (cases "is_run (tasks s ! i)")
        case True
        with c assms show ?thesis
          unfolding Resume step_Resume_Finished [OF \<open>i < length (tasks s)\<close> r [unfolded Finished]]
          by (simp add: single_flight_def runs_def)
      next
        case False
        with f have "is_processing v = is_processing (cview s)" by simp
        with False c assms show ?thesis
          unfolding Resume step_Resume_Finished [OF \<open>i < length (tasks s)\<close> r [unfolded Finished]]
          by (simp add: single_flight_def runs_def)
      qed
    qed
  qed
qed

lemma exec_single_flight: "single_flight (exec e (new_session v) evs)"
proof (induction evs rule: rev_induct)
  case Nil
  show ?case by (simp add: exec_Nil single_flight_def runs_def new_session_def)
next
  case (snoc ev evs)
  then show ?case by (simp add: exec_snoc step_single_flight)
qed


section \<open>The single-flight guard and the authorization check\<close>

text \<open>
  C2: while the processing flag is set, an "I Bought It" press of the buyer changes
  nothing in the view, sends only the notice that a verification is in progress, and
  its handler ends when that send completes. In every session, after any sequence of
  presses and completions, at most one accepted run is in flight, and while one is, the
  flag is set. Two presses back to back start exactly one run: the second is answered
  with the notice.
\<close>

theorem second_press_rejected_while_processing:
  "(uid = user v \<and> is_processing v \<longrightarrow>
      bought_button v uid = (v, [Respond uid Already_in_progress], new_task Notice uid)
      \<and> fst (resume e n v (new_task Notice uid) r) = v
      \<and> fst (snd (resume e n v (new_task Notice uid) r)) = []
      \<and> (\<forall>t'. snd (snd (resume e n v (new_task Notice uid) r)) \<noteq> Suspended t'))
   \<and> runs (exec e (new_session v) evs) \<le> 1
   \<and> (runs (exec e (new_session v) evs) = 1 \<longrightarrow> is_processing (cview (exec e (new_session v) evs)))
   \<and> (\<not> is_processing v \<longrightarrow>
        exec e (new_session v) [Press_bought (user v), Press_bought (user v)] =
          \<lparr>cview = v\<lparr>is_processing := True\<rparr>,
           tasks = [new_task Ack (user v), new_task Notice (user v)],
           trace = [Respond (user v) Verifying_please_wait, Respond (user v) Already_in_progress],
           outcomes = []\<rparr>)"
proof -
  have a: "uid = user v \<and> is_processing v \<longrightarrow>
      bought_button v uid = (v, [Respond uid Already_in_progress], new_task Notice uid)
      \<and> fst (resume e n v (new_task Notice uid) r) = v
      \<and> fst (snd (resume e n v (new_task Notice uid) r)) = []
      \<and> (\<forall>t'. snd (snd (resume e n v (new_task Notice uid) r)) \<noteq> Suspended t')"
    by (cases r) (simp_all add: bought_button_def resume_Returned resume_Raised new_task_def)
  from exec_single_flight [of e v evs]
  have b: "runs (exec e (new_session v) evs) \<le> 1"
    and c: "runs (exec e (new_session v) evs) = 1 \<longrightarrow>
              is_processing (cview (exec e (new_session v) evs))"
    by (simp_all add: single_flight_def)
  have d: "\<not> is_processing v \<longrightarrow>
        exec e (new_session v) [Press_bought (user v), Press_bought (user v)] =
          \<lparr>cview = v\<lparr>is_processing := True\<rparr>,
           tasks = [new_task Ack (user v), new_task Notice (user v)],
           trace = [Respond (user v) Verifying_please_wait, Respond (user v) Already_in_progress],
           outcomes = []\<rparr>"
    by (simp add: exec_def step_Press_bought bought_button_def new_session_def)
  from a b c d show ?thesis by blast
qed

theorem second_press_rejected_while_processing_witness:
  "runs (exec bob_env (new_session skin_view) [Press_bought 7, Press_bought 7]) = 1
   \<and> is_processing (cview (exec bob_env (new_session skin_view) [Press_bought 7, Press_bought 7]))
   \<and> trace (exec bob_env (new_session skin_view) [Press_bought 7, Press_bought 7]) =
        [Respond 7 Verifying_please_wait, Respond 7 Already_in_progress]
   \<and> bought_button (skin_view\<lparr>is_processing := True\<rparr>) 7 =
        (skin_view\<lparr>is_processing := True\<rparr>, [Respond 7 Already_in_progress], new_task Notice 7)"
  using second_press_rejected_while_processing
          [of 7 "skin_view\<lparr>is_processing := True\<rparr>" bob_env 0 "Returned []"
              "[Press_bought 7, Press_bought 7]"]
        second_press_rejected_while_processing
          [of 7 skin_view bob_env 0 "Returned []" "[Press_bought 7, Press_bought 7]"]
  by (simp add: skin_view_def PurchaseConfirmView_def runs_def exec_def step_Press_bought
                bought_button_def new_session_def)

text \<open>
  C6: a selection, an "I Bought It" press or a "Nevermind" press by an identity other than
  the one the menu or the view was made for is answered with a notice and nothing else:
  no view is created, the view's fields and the other tasks are as before, and the only
  effect is the notice.
\<close>

theorem foreign_trigger_rejected:
  "(uid \<noteq> owner \<longrightarrow>
      select_callback items owner uid selected = ([Respond uid Menu_not_for_you], None))
   \<and> (uid \<noteq> user (cview s) \<longrightarrow>
        step e s (Press_bought uid) =
          s\<lparr>tasks := tasks s @ [new_task Notice uid], trace := trace s @ [Respond uid Not_for_you]\<rparr>
        \<and> step e s (Press_cancel uid) =
          s\<lparr>tasks := tasks s @ [new_task Notice uid], trace := trace s @ [Respond uid Not_for_you]\<rparr>
        \<and> cview (exec e s [Press_bought uid, Resume (length (tasks s)) r]) = cview s
        \<and> tasks (exec e s [Press_bought uid, Resume (length (tasks s)) r]) = tasks s
        \<and> trace (exec e s [Press_bought uid, Resume (length (tasks s)) r]) =
             trace s @ [Respond uid Not_for_you]
        \<and> cview (exec e s [Press_cancel uid, Resume (length (tasks s)) r]) = cview s
        \<and> tasks (exec e s [Press_cancel uid, Resume (length (tasks s)) r]) = tasks s
        \<and> trace (exec e s [Press_cancel uid, Resume (length (tasks s)) r]) =
             trace s @ [Respond uid Not_for_you])"
proof -
  have a: "uid \<noteq> owner \<longrightarrow>
      select_callback items owner uid selected = ([Respond uid Menu_not_for_you], None)"
    by (simp add: select_callback_def)
  have n: "resume e k v (new_task Notice uid) r =
             (v, [], Finished (case r of Returned _ \<Rightarrow> Rejected | Raised ex \<Rightarrow> Escaped ex))"
    for k v
    by (cases r) (simp_all add: resume_Returned resume_Raised new_task_def)
  have b: "uid \<noteq> user (cview s) \<longrightarrow>
        step e s (Press_bought uid) =
          s\<lparr>tasks := tasks s @ [new_task Notice uid], trace := trace s @ [Respond uid Not_for_you]\<rparr>
        \<and> step e s (Press_cancel uid) =
          s\<lparr>tasks := tasks s @ [new_task Notice uid], trace := trace s @ [Respond uid Not_for_you]\<rparr>"
    by (simp add: step_Press_bought step_Press_cancel bought_button_def cancel_button_def)
  have c: "uid \<noteq> user (cview s) \<longrightarrow>
        cview (exec e s [Press_bought uid, Resume (length (tasks s)) r]) = cview s
        \<and> tasks (exec e s [Press_bought uid, Resume (length (tasks s)) r]) = tasks s
        \<and> trace (exec e s [Press_bought uid, Resume (length (tasks s)) r]) =
             trace s @ [Respond uid Not_for_you]
        \<and> cview (exec e s [Press_cancel uid, Resume (length (tasks s)) r]) = cview s
        \<and> tasks (exec e s [Press_cancel uid, Resume (length (tasks s)) r]) = tasks s
        \<and> trace (exec e s [Press_cancel uid, Resume (length (tasks s)) r]) =
             trace s @ [Respond uid Not_for_you]"
    using b by (simp add: exec_Cons exec_Nil step_def n)
  from a b c show ?thesis by blast
qed

theorem foreign_trigger_rejected_witness:
  "select_callback [skin_a] 7 8 ''Skin A'' = ([Respond 8 Menu_not_for_you], None)
   \<and> cview (exec bob_env (new_session skin_view) [Press_bought 8, Resume 0 (Returned [])]) = skin_view
   \<and> tasks (exec bob_env (new_session skin_view) [Press_cancel 8, Resume 0 (Returned [])]) = []
   \<and> trace (exec bob_env (new_session skin_view) [Press_cancel 8, Resume 0 (Returned [])]) =
        [Respond 8 Not_for_you]"
  using foreign_trigger_rejected
          [of 8 7 "[skin_a]" "''Skin A''" "new_session skin_view" bob_env "Returned []"]
  by (simp add: new_session_def skin_view_def PurchaseConfirmView_def)

section \<open>Terminal states and the controls\<close>

lemma list_all_disabled [simp]: "list_all (\<lambda>d. d) (map (\<lambda>_. True) xs)"
  by (induction xs) simp_all

lemma resume_children:
  assumes "resume e n v t r = (v', es, p)"
  shows "(children v' = children v \<or> children v' = map (\<lambda>_. True) (children v))
       \<and> (\<forall>t'. p = Suspended t' \<and> (pc t' = Delivery_edit \<or> pc t' = Cancel_edit) \<longrightarrow>
              list_all (\<lambda>d. d) (children v') \<and> list_ex is_disabling_edit es)"
proof (cases r)
  case (Raised ex)
  with assms except_clause_is_run [of t ex] except_clause_no_delivery [of t ex] show ?thesis
    by (cases "pc t") (auto simp: resume_Raised is_run_def file_sent_def)
next
  case (Returned x)
  show ?thesis
  proof (cases "pc t")
    case Wait_username
    with assms Returned on_message_is_run [of e n v t x] on_message_no_delivery [of t e n v x]
    show ?thesis
      by (auto simp: resume_Returned is_run_def file_sent_def no_delivery_step_def)
  next
    case Sleeping
    with assms Returned loop_iteration_is_run [of e n v t "attempt t + 1"]
      loop_iteration_no_delivery [of t e n v "attempt t + 1"]
    show ?thesis
      by (auto simp: resume_Returned is_run_def file_sent_def no_delivery_step_def)
  qed (use assms Returned in \<open>auto simp: resume_Returned is_disabling_edit_def\<close>)
qed

lemma resume_finished:
  assumes "resume e n v t r = (v', es, Finished out)"
  shows "(out = Delivered \<longrightarrow> pc t = Delivery_edit \<and> v' = v\<lparr>is_processing := False\<rparr>)
       \<and> (out = Cancelled \<longrightarrow> pc t = Cancel_edit \<and> v' = v)
       \<and> (out = Failed_unresolved \<or> out = Failed_exhausted \<or> out = Timed_out \<longrightarrow>
            v' = v\<lparr>is_processing := False\<rparr>)"
proof (cases r)
  case (Raised ex)
  with assms except_clause_is_run [of t ex] show ?thesis
    by (cases "pc t") (auto simp: resume_Raised)
next
  case (Returned x)
  show ?thesis
  proof (cases "pc t")
    case Wait_username
    with assms Returned on_message_is_run [of e n v t x] show ?thesis
      by (auto simp: resume_Returned)
  next
    case Sleeping
    with assms Returned loop_iteration_is_run [of e n v t "attempt t + 1"] show ?thesis
      by (auto simp: resume_Returned)
  qed (use assms Returned in \<open>auto simp: resume_Returned\<close>)
qed

lemma list_ex_update: "list_ex Q (xs[i := y]) \<Longrightarrow> Q y \<or> list_ex Q xs"
  by (auto simp: list_ex_iff dest!: set_update_subset_insert [THEN subsetD])

lemma list_ex_remove: "list_ex Q (take i xs @ drop (Suc i) xs) \<Longrightarrow> list_ex Q xs"
  by (auto simp: list_ex_iff dest: in_set_takeD in_set_dropD)

lemma step_controls_inv:
  assumes "controls_inv s"
  shows "controls_inv (step e s ev)"
proof (cases ev)
  case (Press_bought uid)
  with assms bought_button_cases [of "cview s" uid] show ?thesis
    by (auto simp: step_Press_bought controls_inv_def new_task_def)
next
  case (Press_cancel uid)
  with assms cancel_button_cases [of "cview s" uid] show ?thesis
    by (auto simp: step_Press_cancel controls_inv_def new_task_def)
next
  case (Resume i r)
  show ?thesis
  proof (cases "i < length (tasks s)")
    case False
    with assms Resume show ?thesis by (simp add: step_Resume_none)
  next
    case True
    obtain v es p where r: "resume e (http_calls (trace s)) (cview s) (tasks s ! i) r = (v, es, p)"
      by (cases "resume e (http_calls (trace s)) (cview s) (tasks s ! i) r")
    note c = resume_children [OF r]
    let ?Q = "\<lambda>t. pc t = Delivery_edit \<or> pc t = Cancel_edit"
    have keep: "list_ex ?Q (tasks s) \<Longrightarrow>
        list_all (\<lambda>d. d) (children v) \<and> list_ex is_disabling_edit (trace s @ es)"
      using assms c by (auto simp: controls_inv_def)
    show ?thesis
    proof (cases p)
      case (Suspended t)
      have "list_ex ?Q ((tasks s)[i := t]) \<Longrightarrow>
          list_all (\<lambda>d. d) (children v) \<and> list_ex is_disabling_edit (trace s @ es)"
      proof -
        assume "list_ex ?Q ((tasks s)[i := t])"
        from list_ex_update [OF this] have "?Q t \<or> list_ex ?Q (tasks s)" .
        with keep c Suspended show ?thesis by auto
      qed
      then show ?thesis
        unfolding Resume step_Resume_Suspended [OF True r [unfolded Suspended]]
        by (simp add: controls_inv_def)
    next
      case (Finished out)
      have "list_ex ?Q (take i (tasks s) @ drop (Suc i) (tasks s)) \<Longrightarrow>
          list_all (\<lambda>d. d) (children v) \<and> list_ex is_disabling_edit (trace s @ es)"
        using keep list_ex_remove [of ?Q i "tasks s"] by blast
      then show ?thesis
        unfolding Resume step_Resume_Finished [OF True r [unfolded Finished]]
        by (simp add: controls_inv_def)
    qed
  qed
qed

lemma exec_controls_inv: "controls_inv (exec e (new_session v) evs)"
proof (induction evs rule: rev_induct)
  case Nil
  show ?case by (simp add: exec_Nil controls_inv_def new_session_def)
next
  case (snoc ev evs)
  then show ?case by (simp add: exec_snoc step_controls_inv)
qed

lemma failed_session_fields:
  "cview failed_session = skin_view"
  "tasks failed_session = []"
  "outcomes failed_session = [Failed_unresolved]"
  by (simp_all add: failed_session_def exec_def step_def new_session_def bought_button_def
        new_task_def resume_Returned on_message_unresolved nobody_env_unresolved
        skin_view_def PurchaseConfirmView_def skin_a_def)

lemma delivering_session_fields:
  "cview delivering_session =
     skin_view\<lparr>is_processing := True, children := [True, True]\<rparr>"
  "tasks delivering_session =
     [\<lparr>pc = Delivery_edit, caller = 7, roblox_username = ''Bob'', user_id = PInt 123,
       attempt = 1\<rparr>]"
  "outcomes delivering_session = []"
  by (simp_all add: delivering_session_def exec_def step_def new_session_def bought_button_def
        new_task_def resume_Returned on_message_resolved loop_iteration_not_owned
        loop_iteration_owned strip_Bob bob_env_resolves bob_env_checks skin_view_def
        PurchaseConfirmView_def skin_a_def)

lemma unresolved_session_fields:
  "cview unresolved_session = skin_view\<lparr>is_processing := True\<rparr>"
  "tasks unresolved_session =
     [\<lparr>pc = Not_found_notice, caller = 7, roblox_username = ''Nobody'', user_id = PNone,
       attempt = 0\<rparr>]"
  "outcomes unresolved_session = []"
  by (simp_all add: unresolved_session_def exec_def step_def new_session_def bought_button_def
        new_task_def resume_Returned on_message_unresolved nobody_env_unresolved
        skin_view_def PurchaseConfirmView_def skin_a_def strip_def is_space_def)

lemma is_edit_simps [simp]:
  "is_edit (Http_get u) = False"
  "is_edit (Http_post u a) = False"
  "is_edit (Log l) = False"
  "is_edit (Followup i m) = False"
  "is_edit (Respond i m) = False"
  "is_edit (Edit_message c) = True"
  "is_edit (Wait_for i) = False"
  "is_edit (Sleep k) = False"
  by (simp_all add: is_edit_def)

lemma check_no_edit [simp]: "list_ex is_edit (fst (check_gamepass_ownership e n u g)) = False"
  using check_cases [of e n u g] by auto

lemma get_user_id_no_edit [simp]:
  "list_ex is_edit (fst (get_user_id_from_username e n u)) = False"
  by (simp add: get_user_id_from_username_def split: response.split option.split list.split)

lemma after_loop_no_edit [simp]: "list_ex is_edit (fst (after_loop v t b)) = False"
  by (simp add: after_loop_def)

lemma except_clause_no_edit [simp]: "list_ex is_edit (fst (except_clause t ex)) = False"
  by (simp add: except_clause_def split: exn.split)

lemma loop_iteration_no_edit [simp]: "list_ex is_edit (fst (loop_iteration e n v t k)) = False"
  by (simp add: loop_iteration_def case_prod_beta split: sum.split)

lemma on_message_no_edit [simp]: "list_ex is_edit (fst (on_message e n v t m)) = False"
  by (simp add: on_message_def Let_def case_prod_beta split: sum.split)

lemma no_edit_pieces:
  "on_message e n v t m = (es, p) \<Longrightarrow> \<not> list_ex is_edit es"
  "loop_iteration e n v t k = (es, p) \<Longrightarrow> \<not> list_ex is_edit es"
  "except_clause t ex = (es, p) \<Longrightarrow> \<not> list_ex is_edit es"
  using on_message_no_edit [of e n v t m] loop_iteration_no_edit [of e n v t k]
    except_clause_no_edit [of t ex]
  by auto

lemma resume_edit:
  assumes "resume e n v t r = (v', es, p)"
  shows "(children v' = map (\<lambda>_. True) (children v) \<and> list_ex is_edit es)
       \<or> (children v' = children v \<and> \<not> list_ex is_edit es)"
  using assms
  by (cases "pc t"; cases r) (auto simp: resume_Returned resume_Raised dest: no_edit_pieces)

lemma step_edit_inv:
  assumes "edit_inv v s"
  shows "edit_inv v (step e s ev)"
proof (cases ev)
  case (Press_bought uid)
  with assms bought_button_cases [of "cview s" uid] show ?thesis
    by (auto simp: step_Press_bought edit_inv_def)
next
  case (Press_cancel uid)
  with assms cancel_button_cases [of "cview s" uid] show ?thesis
    by (auto simp: step_Press_cancel edit_inv_def)
next
  case (Resume i r)
  show ?thesis
  proof (cases "i < length (tasks s)")
    case False
    with assms Resume show ?thesis by (simp add: step_Resume_none)
  next
    case True
    obtain w es p where r: "resume e (http_calls (trace s)) (cview s) (tasks s ! i) r = (w, es, p)"
      by (cases "resume e (http_calls (trace s)) (cview s) (tasks s ! i) r")
    from resume_edit [OF r] assms
    have "children w =
        (if list_ex is_edit (trace s @ es) then map (\<lambda>_. True) (children v) else children v)"
      by (auto simp: edit_inv_def)
    then show ?thesis
      using step_Resume_Suspended [OF True, of e r w es] step_Resume_Finished [OF True, of e r w es]
        r Resume
      by (cases p) (simp_all add: edit_inv_def)
  qed
qed

lemma exec_edit_inv: "edit_inv v (exec e (new_session v) evs)"
proof (induction evs rule: rev_induct)
  case Nil
  show ?case by (simp add: exec_Nil edit_inv_def new_session_def)
next
  case (snoc ev evs)
  then show ?case by (simp add: exec_snoc step_edit_inv)
qed

lemma step_stays_disabled:
  assumes "list_all (\<lambda>d. d) (children (cview s))"
  shows "list_all (\<lambda>d. d) (children (cview (step e s ev)))"
proof (cases ev)
  case (Press_bought uid)
  with assms bought_button_cases [of "cview s" uid] show ?thesis
    by (auto simp: step_Press_bought)
next
  case (Press_cancel uid)
  with assms cancel_button_cases [of "cview s" uid] show ?thesis
    by (auto simp: step_Press_cancel)
next
  case (Resume i r)
  show ?thesis
  proof (cases "i < length (tasks s)")
    case False
    with assms Resume show ?thesis by (simp add: step_Resume_none)
  next
    case True
    obtain w es p where r: "resume e (http_calls (trace s)) (cview s) (tasks s ! i) r = (w, es, p)"
      by (cases "resume e (http_calls (trace s)) (cview s) (tasks s ! i) r")
    from resume_edit [OF r] assms have "list_all (\<lambda>d. d) (children w)" by auto
    then show ?thesis
      using step_Resume_Suspended [OF True, of e r w es] step_Resume_Finished [OF True, of e r w es]
        r Resume
      by (cases p) simp_all
  qed
qed

lemma exec_stays_disabled:
  "list_all (\<lambda>d. d) (children (cview s)) \<Longrightarrow>
     list_all (\<lambda>d. d) (children (cview (exec e s evs)))"
  by (induction evs arbitrary: s) (simp_all add: exec_Nil exec_Cons step_stays_disabled)

lemma buttons_ignore_children:
  "bought_button (w\<lparr>children := c\<rparr>) uid =
     (case bought_button w uid of (w', es, t) \<Rightarrow> (w'\<lparr>children := c\<rparr>, es, t))"
  "cancel_button (w\<lparr>children := c\<rparr>) uid =
     (case cancel_button w uid of (w', es, t) \<Rightarrow> (w'\<lparr>children := c\<rparr>, es, t))"
  by (simp_all add: bought_button_def cancel_button_def)

lemma resume_finished_failed:
  assumes "resume e n v t r = (v', es, Finished out)"
    and "out = Failed_unresolved \<or> out = Failed_exhausted \<or> out = Timed_out"
  shows "v' = v\<lparr>is_processing := False\<rparr> \<and> es = []"
proof (cases r)
  case (Raised ex)
  with assms except_clause_is_run [of t ex] show ?thesis
    by (cases "pc t") (auto simp: resume_Raised)
next
  case (Returned x)
  show ?thesis
  proof (cases "pc t")
    case Wait_username
    with assms Returned on_message_is_run [of e n v t x] show ?thesis
      by (auto simp: resume_Returned)
  next
    case Sleeping
    with assms Returned loop_iteration_is_run [of e n v t "attempt t + 1"] show ?thesis
      by (auto simp: resume_Returned)
  qed (use assms Returned in \<open>auto simp: resume_Returned\<close>)
qed

lemma unresolved_session_no_edit: "\<not> list_ex is_edit (trace unresolved_session)"
  by (simp add: unresolved_session_def exec_def step_def new_session_def bought_button_def
        new_task_def resume_Returned on_message_unresolved nobody_env_unresolved
        skin_view_def PurchaseConfirmView_def skin_a_def)

lemma verifying_session_fields:
  "cview verifying_session = skin_view\<lparr>is_processing := True\<rparr>"
  "tasks verifying_session =
     [\<lparr>pc = Progress_notice, caller = 7, roblox_username = ''Bob'', user_id = PInt 123,
       attempt = 0\<rparr>]"
  "outcomes verifying_session = []"
  by (simp_all add: verifying_session_def exec_def step_def new_session_def bought_button_def
        new_task_def resume_Returned on_message_resolved loop_iteration_not_owned
        strip_Bob bob_env_resolves bob_env_checks skin_view_def PurchaseConfirmView_def
        skin_a_def)

lemma verifying_session_http: "http_calls (trace verifying_session) = 2"
  by (simp add: verifying_session_def exec_def step_def new_session_def bought_button_def
        new_task_def resume_Returned on_message_resolved loop_iteration_not_owned
        strip_Bob bob_env_resolves bob_env_checks skin_view_def PurchaseConfirmView_def
        skin_a_def)

text \<open>
  C8 as stated fails: it claims that the controls are disabled on entry to every terminal
  state and that no transition is possible afterwards. The run of the scenario whose
  account name does not resolve ends Failed with both controls enabled, and the buyer's
  next press starts another run. And with a "Nevermind" pressed during the retry loop, the
  run ends Delivered after the session has ended Cancelled, or the cancellation ends
  Cancelled after the run has ended Delivered.
\<close>

theorem terminal_states_not_closed:
  "outcomes failed_session = [Failed_unresolved]
   \<and> tasks failed_session = []
   \<and> children (cview failed_session) = [False, False]
   \<and> tasks (step nobody_env failed_session (Press_bought 7)) = [new_task Ack 7]
   \<and> is_processing (cview (step nobody_env failed_session (Press_bought 7)))
   \<and> outcomes cancelled_then_delivered = [Cancelled, Delivered]
   \<and> outcomes delivered_then_cancelled = [Delivered, Cancelled]"
  by (simp add: failed_session_fields step_Press_bought bought_button_def skin_view_def
        PurchaseConfirmView_def cancelled_then_delivered_def delivered_then_cancelled_def
        verifying_session_fields verifying_session_http exec_def step_def cancel_button_def
        new_task_def resume_Returned loop_iteration_not_owned loop_iteration_owned
        bob_env_checks skin_a_def)


text \<open>
  C8, amended: when a handler invocation ends Delivered or Cancelled, every control of
  the view is disabled and the message has been edited to show it, and the controls stay
  disabled in every later state of the session. Whether a transition can follow is left
  to the platform: the code handles a press the same whether or not the controls are
  disabled, and once no handler is in flight only a new press changes the session.
  When a run ends Failed (account name unresolved, or attempts exhausted) or TimedOut,
  the flag is cleared, so that the buyer's next "I Bought It" press starts a new run, and
  that exit issues nothing and does not touch the controls: in every state of a session
  the controls are as the session began with them (enabled) as long as no message edit
  has been issued, and all disabled from the first edit on.
\<close>

theorem controls_after_terminal_states:
  assumes "s = exec e (new_session v) evs"
  shows "children (cview s) =
           (if list_ex is_edit (trace s) then map (\<lambda>_. True) (children v) else children v)
     \<and> children (PurchaseConfirmView it u url) = [False, False]
     \<and> (list_all (\<lambda>d. d) (children (cview s)) \<longrightarrow>
          list_all (\<lambda>d. d) (children (cview (exec e s evs'))))
     \<and> (tasks s = [] \<longrightarrow> step e s (Resume j r') = s)
     \<and> bought_button (cview s\<lparr>children := c\<rparr>) uid =
          (case bought_button (cview s) uid of (w, es, t) \<Rightarrow> (w\<lparr>children := c\<rparr>, es, t))
     \<and> cancel_button (cview s\<lparr>children := c\<rparr>) uid =
          (case cancel_button (cview s) uid of (w, es, t) \<Rightarrow> (w\<lparr>children := c\<rparr>, es, t))
     \<and> (i < length (tasks s)
          \<and> resume e (http_calls (trace s)) (cview s) (tasks s ! i) r = (v', es, Finished out) \<longrightarrow>
          cview (step e s (Resume i r)) = v'
          \<and> outcomes (step e s (Resume i r)) = outcomes s @ [out]
          \<and> (out = Delivered \<or> out = Cancelled \<longrightarrow>
               list_all (\<lambda>d. d) (children v') \<and> list_ex is_disabling_edit (trace s)
               \<and> list_all (\<lambda>d. d) (children (cview (exec e (step e s (Resume i r)) evs'))))
          \<and> (out = Failed_unresolved \<or> out = Failed_exhausted \<or> out = Timed_out \<longrightarrow>
               \<not> is_processing v'
               \<and> trace (step e s (Resume i r)) = trace s
               \<and> children v' =
                   (if list_ex is_edit (trace s) then map (\<lambda>_. True) (children v)
                    else children v)
               \<and> pc (snd (snd (bought_button v' (user v')))) = Ack))"
proof -
  from assms have inv: "controls_inv s" and einv: "edit_inv v s"
    by (simp_all add: exec_controls_inv exec_edit_inv)
  from einv have a: "children (cview s) =
           (if list_ex is_edit (trace s) then map (\<lambda>_. True) (children v) else children v)"
    by (simp add: edit_inv_def)
  have b: "list_all (\<lambda>d. d) (children (cview s)) \<longrightarrow>
          list_all (\<lambda>d. d) (children (cview (exec e s evs')))"
    by (simp add: exec_stays_disabled)
  have c: "tasks s = [] \<longrightarrow> step e s (Resume j r') = s"
    by (simp add: step_Resume_none)
  have a': "children (PurchaseConfirmView it u url) = [False, False]"
    by (simp add: PurchaseConfirmView_def)
  note d = buttons_ignore_children [where w = "cview s" and c = c and uid = uid]
  have f: "i < length (tasks s)
          \<and> resume e (http_calls (trace s)) (cview s) (tasks s ! i) r = (v', es, Finished out) \<longrightarrow>
          cview (step e s (Resume i r)) = v'
          \<and> outcomes (step e s (Resume i r)) = outcomes s @ [out]
          \<and> (out = Delivered \<or> out = Cancelled \<longrightarrow>
               list_all (\<lambda>d. d) (children v') \<and> list_ex is_disabling_edit (trace s)
               \<and> list_all (\<lambda>d. d) (children (cview (exec e (step e s (Resume i r)) evs'))))
          \<and> (out = Failed_unresolved \<or> out = Failed_exhausted \<or> out = Timed_out \<longrightarrow>
               \<not> is_processing v'
               \<and> trace (step e s (Resume i r)) = trace s
               \<and> children v' =
                   (if list_ex is_edit (trace s) then map (\<lambda>_. True) (children v)
                    else children v)
               \<and> pc (snd (snd (bought_button v' (user v')))) = Ack)"
  proof (intro impI, elim conjE)
    assume len: "i < length (tasks s)"
      and r: "resume e (http_calls (trace s)) (cview s) (tasks s ! i) r = (v', es, Finished out)"
    note fin = resume_finished [OF r]
    from len have mem: "tasks s ! i \<in> set (tasks s)" by simp
    have st: "cview (step e s (Resume i r)) = v'
        \<and> outcomes (step e s (Resume i r)) = outcomes s @ [out]
        \<and> trace (step e s (Resume i r)) = trace s @ es"
      by (simp add: step_Resume_Finished [OF len r])
    have dc: "out = Delivered \<or> out = Cancelled \<longrightarrow>
               list_all (\<lambda>d. d) (children v') \<and> list_ex is_disabling_edit (trace s)
               \<and> list_all (\<lambda>d. d) (children (cview (exec e (step e s (Resume i r)) evs')))"
    proof
      assume o: "out = Delivered \<or> out = Cancelled"
      with fin have "pc (tasks s ! i) = Delivery_edit \<or> pc (tasks s ! i) = Cancel_edit" by auto
      with mem have "list_ex (\<lambda>t. pc t = Delivery_edit \<or> pc t = Cancel_edit) (tasks s)"
        by (auto simp: list_ex_iff)
      with inv have "list_all (\<lambda>d. d) (children (cview s)) \<and> list_ex is_disabling_edit (trace s)"
        by (simp add: controls_inv_def)
      moreover from o fin have "children v' = children (cview s)" by auto
      ultimately have x: "list_all (\<lambda>d. d) (children v') \<and> list_ex is_disabling_edit (trace s)"
        by simp
      with st have "list_all (\<lambda>d. d) (children (cview (step e s (Resume i r))))" by simp
      from exec_stays_disabled [OF this] x
      show "list_all (\<lambda>d. d) (children v') \<and> list_ex is_disabling_edit (trace s)
               \<and> list_all (\<lambda>d. d) (children (cview (exec e (step e s (Resume i r)) evs')))"
        by simp
    qed
    have fl: "out = Failed_unresolved \<or> out = Failed_exhausted \<or> out = Timed_out \<longrightarrow>
               \<not> is_processing v'
               \<and> trace (step e s (Resume i r)) = trace s
               \<and> children v' =
                   (if list_ex is_edit (trace s) then map (\<lambda>_. True) (children v)
                    else children v)
               \<and> pc (snd (snd (bought_button v' (user v')))) = Ack"
    proof
      assume o: "out = Failed_unresolved \<or> out = Failed_exhausted \<or> out = Timed_out"
      from resume_finished_failed [OF r o] have v': "v' = cview s\<lparr>is_processing := False\<rparr>" "es = []"
        by simp_all
      with a st show "\<not> is_processing v'
               \<and> trace (step e s (Resume i r)) = trace s
               \<and> children v' =
                   (if list_ex is_edit (trace s) then map (\<lambda>_. True) (children v)
                    else children v)
               \<and> pc (snd (snd (bought_button v' (user v')))) = Ack"
        by (simp add: bought_button_def new_task_def)
    qed
    from st dc fl show "cview (step e s (Resume i r)) = v'
          \<and> outcomes (step e s (Resume i r)) = outcomes s @ [out]
          \<and> (out = Delivered \<or> out = Cancelled \<longrightarrow>
               list_all (\<lambda>d. d) (children v') \<and> list_ex is_disabling_edit (trace s)
               \<and> list_all (\<lambda>d. d) (children (cview (exec e (step e s (Resume i r)) evs'))))
          \<and> (out = Failed_unresolved \<or> out = Failed_exhausted \<or> out = Timed_out \<longrightarrow>
               \<not> is_processing v'
               \<and> trace (step e s (Resume i r)) = trace s
               \<and> children v' =
                   (if list_ex is_edit (trace s) then map (\<lambda>_. True) (children v)
                    else children v)
               \<and> pc (snd (snd (bought_button v' (user v')))) = Ack)"
      by blast
  qed
  from a a' b c d f show ?thesis by blast
qed


theorem controls_after_terminal_states_witness:
  "outcomes (step bob_env delivering_session (Resume 0 (Returned []))) = [Delivered]
   \<and> list_all (\<lambda>d. d) (children (cview (step bob_env delivering_session (Resume 0 (Returned [])))))
   \<and> outcomes (step nobody_env unresolved_session (Resume 0 (Returned []))) = [Failed_unresolved]
   \<and> children (cview (step nobody_env unresolved_session (Resume 0 (Returned [])))) =
        [False, False]
   \<and> \<not> is_processing (cview (step nobody_env unresolved_session (Resume 0 (Returned []))))"
proof -
  have d: "resume bob_env (http_calls (trace delivering_session)) (cview delivering_session)
             (tasks delivering_session ! 0) (Returned []) =
           (cview delivering_session\<lparr>is_processing := False\<rparr>, [], Finished Delivered)"
    by (simp add: delivering_session_fields resume_Returned)
  have u: "resume nobody_env (http_calls (trace unresolved_session)) (cview unresolved_session)
             (tasks unresolved_session ! 0) (Returned []) =
           (cview unresolved_session\<lparr>is_processing := False\<rparr>, [], Finished Failed_unresolved)"
    by (simp add: unresolved_session_fields resume_Returned)
  have ld: "0 < length (tasks delivering_session)" by (simp add: delivering_session_fields)
  have lu: "0 < length (tasks unresolved_session)" by (simp add: unresolved_session_fields)
  note t1 = controls_after_terminal_states
         [OF delivering_session_def, where i = 0 and r = "Returned []"
            and v' = "cview delivering_session\<lparr>is_processing := False\<rparr>" and es = "[]"
            and out = Delivered and evs' = "[]" and c = "[]" and uid = 7 and j = 0
            and r' = "Returned []"]
  note t2 = controls_after_terminal_states
         [OF unresolved_session_def, where i = 0 and r = "Returned []"
            and v' = "cview unresolved_session\<lparr>is_processing := False\<rparr>" and es = "[]"
            and out = Failed_unresolved and evs' = "[]" and c = "[]" and uid = 7 and j = 0
            and r' = "Returned []"]
  from t1 d ld
  have x1: "cview (step bob_env delivering_session (Resume 0 (Returned []))) =
              cview delivering_session\<lparr>is_processing := False\<rparr>"
    "outcomes (step bob_env delivering_session (Resume 0 (Returned []))) =
       outcomes delivering_session @ [Delivered]"
    "list_all (\<lambda>d. d) (children (cview delivering_session\<lparr>is_processing := False\<rparr>))"
    by blast+
  from t2 u lu
  have x2: "cview (step nobody_env unresolved_session (Resume 0 (Returned []))) =
              cview unresolved_session\<lparr>is_processing := False\<rparr>"
    "outcomes (step nobody_env unresolved_session (Resume 0 (Returned []))) =
       outcomes unresolved_session @ [Failed_unresolved]"
    "children (cview unresolved_session\<lparr>is_processing := False\<rparr>) =
       (if list_ex is_edit (trace unresolved_session) then map (\<lambda>_. True) (children skin_view)
        else children skin_view)"
    by blast+
  from x1 x2 unresolved_session_no_edit show ?thesis
    by (simp add: delivering_session_fields(3) unresolved_session_fields(3) skin_view_def
          PurchaseConfirmView_def)
qed

section \<open>Nevermind\<close>

text \<open>
  C9 as stated fails in its first half: it claims that "Nevermind" causes a transition
  only in state Pending. In the scenario, with the run in the retry loop and the flag
  set, the buyer's "Nevermind" is answered "Purchase cancelled", disables both controls
  and ends Cancelled.
\<close>

theorem nevermind_during_verification:
  "is_processing (cview verifying_session)
   \<and> map pc (tasks verifying_session) = [Progress_notice]
   \<and> children (cview verifying_session) = [False, False]
   \<and> children (cview (exec bob_env verifying_session
        [Press_cancel 7, Resume 1 (Returned []), Resume 1 (Returned [])])) = [True, True]
   \<and> outcomes (exec bob_env verifying_session
        [Press_cancel 7, Resume 1 (Returned []), Resume 1 (Returned [])]) = [Cancelled]
   \<and> trace (exec bob_env verifying_session
        [Press_cancel 7, Resume 1 (Returned []), Resume 1 (Returned [])]) =
      trace verifying_session @ [Respond 7 Purchase_cancelled, Edit_message [True, True]]"
  by (simp add: verifying_session_fields exec_def step_def cancel_button_def new_task_def
        resume_Returned skin_view_def PurchaseConfirmView_def)

text \<open>
  C9, amended: the buyer's "Nevermind" is accepted whatever the flag says; when its
  notice has been sent it disables the controls and edits the message. Its handler
  leaves the flag alone, issues no HTTP request and never becomes a task of a run; and a
  task of a run does the same from the view with the controls disabled as from the view
  without, so the run goes on to its own end unaltered.
\<close>

theorem nevermind_leaves_run_alone:
  "cancel_button v (user v) =
     (v, [Respond (user v) Purchase_cancelled], new_task Cancel_notice (user v))
   \<and> (pc t = Cancel_notice \<longrightarrow>
        resume e n v t (Returned x) =
          (v\<lparr>children := map (\<lambda>_. True) (children v)\<rparr>,
           [Edit_message (map (\<lambda>_. True) (children v))], Suspended (t\<lparr>pc := Cancel_edit\<rparr>)))
   \<and> (\<not> is_run t \<longrightarrow>
        is_processing (fst (resume e n v t r)) = is_processing v
        \<and> http_calls (fst (snd (resume e n v t r))) = 0
        \<and> (\<forall>t'. snd (snd (resume e n v t r)) = Suspended t' \<longrightarrow> \<not> is_run t'))
   \<and> (is_run t \<longrightarrow>
        resume e n (v\<lparr>children := map (\<lambda>_. True) (children v)\<rparr>) t r =
          (case resume e n v t r of
             (v', es, p) \<Rightarrow> (v'\<lparr>children := map (\<lambda>_. True) (children v')\<rparr>, es, p)))"
proof -
  have a: "cancel_button v (user v) =
     (v, [Respond (user v) Purchase_cancelled], new_task Cancel_notice (user v))"
    by (simp add: cancel_button_def)
  have b: "pc t = Cancel_notice \<longrightarrow>
        resume e n v t (Returned x) =
          (v\<lparr>children := map (\<lambda>_. True) (children v)\<rparr>,
           [Edit_message (map (\<lambda>_. True) (children v))], Suspended (t\<lparr>pc := Cancel_edit\<rparr>))"
    by (simp add: resume_Returned)
  have c: "\<not> is_run t \<longrightarrow>
        is_processing (fst (resume e n v t r)) = is_processing v
        \<and> http_calls (fst (snd (resume e n v t r))) = 0
        \<and> (\<forall>t'. snd (snd (resume e n v t r)) = Suspended t' \<longrightarrow> \<not> is_run t')"
  proof
    assume nr: "\<not> is_run t"
    obtain v' es p where r: "resume e n v t r = (v', es, p)" by (cases "resume e n v t r")
    from resume_flag [OF r] nr r
    show "is_processing (fst (resume e n v t r)) = is_processing v
        \<and> http_calls (fst (snd (resume e n v t r))) = 0
        \<and> (\<forall>t'. snd (snd (resume e n v t r)) = Suspended t' \<longrightarrow> \<not> is_run t')"
      by auto
  qed
  have d: "is_run t \<longrightarrow>
        resume e n (v\<lparr>children := map (\<lambda>_. True) (children v)\<rparr>) t r =
          (case resume e n v t r of
             (v', es, p) \<Rightarrow> (v'\<lparr>children := map (\<lambda>_. True) (children v')\<rparr>, es, p))"
    by (intro impI resume_commutes_with_disabling)
  from a b c d show ?thesis by blast
qed

theorem nevermind_leaves_run_alone_witness:
  "is_run (tasks verifying_session ! 0)
   \<and> resume bob_env 2 (cview verifying_session\<lparr>children := [True, True]\<rparr>)
        (tasks verifying_session ! 0) (Returned []) =
      (cview verifying_session\<lparr>children := [True, True]\<rparr>, [Sleep 5],
       Suspended ((tasks verifying_session ! 0)\<lparr>pc := Sleeping\<rparr>))
   \<and> cancel_button (cview verifying_session) 7 =
      (cview verifying_session, [Respond 7 Purchase_cancelled], new_task Cancel_notice 7)"
  using nevermind_leaves_run_alone
          [of "cview verifying_session" "tasks verifying_session ! 0" bob_env 2 "[]"
              "Returned []"]
  by (simp add: verifying_session_fields is_run_def resume_Returned skin_view_def
                PurchaseConfirmView_def)

end
